theory Spec2Isabelle
  imports Main "HOL-Library.Word" "HOL-Library.Multiset"
begin

unbundle bit_operations_syntax

section \<open>The buddy allocator of buddy.c\<close>

text \<open>
  The allocator keeps three global objects: the arena \<open>g_memory\<close> (an array of
  \<open>1 << MAX_ORDER\<close> bytes), the descriptor table \<open>g_pages\<close> (one \<open>page_t\<close> for each
  page of \<open>PAGE_SIZE\<close> bytes) and the heads \<open>free_area\<close> of one free list for each
  order. The model passes them around as a record. Orders and the loop counters are C
  \<open>int\<close>s that stay between \<open>-1\<close> and \<open>MAX_ORDER\<close>, so they are HOL integers;
  addresses are \<open>unsigned long\<close> values of 64 bits, whose subtraction and addition wrap.
\<close>

subsection \<open>Constants and address arithmetic\<close>

definition MIN_ORDER :: int where
  "MIN_ORDER = 12"

definition MAX_ORDER :: int where
  "MAX_ORDER = 20"

text \<open>\<open>PAGE_SIZE\<close> is \<open>1 << MIN_ORDER\<close>; \<open>n_pages\<close> is \<open>(1 << MAX_ORDER) / PAGE_SIZE\<close>,
  the length of \<open>g_pages\<close>.\<close>

definition PAGE_SIZE :: int where
  "PAGE_SIZE = push_bit (nat MIN_ORDER) 1"

definition n_pages :: nat where
  "n_pages = nat (push_bit (nat MAX_ORDER) 1 div PAGE_SIZE)"

type_synonym addr = "64 word"

text \<open>The three macros. The first argument is the address of \<open>g_memory\<close>, which the
  macros read from the global.\<close>

definition PAGE_TO_ADDR :: "addr \<Rightarrow> int \<Rightarrow> addr" where
  "PAGE_TO_ADDR g page_idx = word_of_int (page_idx * PAGE_SIZE) + g"

definition ADDR_TO_PAGE :: "addr \<Rightarrow> addr \<Rightarrow> addr" where
  "ADDR_TO_PAGE g a = (a - g) div word_of_int PAGE_SIZE"

definition BUDDY_ADDR :: "addr \<Rightarrow> addr \<Rightarrow> int \<Rightarrow> addr" where
  "BUDDY_ADDR g a k = ((a - g) XOR word_of_int (push_bit (nat k) 1)) + g"

subsection \<open>Descriptors, free lists and the state\<close>

text \<open>A \<open>page_t\<close> without its \<open>list\<close> node: the node is the descriptor's membership in a
  free list, which the model keeps in \<open>free_area\<close>.\<close>

record page_t =
  index :: int
  address :: addr
  order :: int

text \<open>A pointer \<open>&g_pages[i]\<close> is the index \<open>i\<close>; comparing two such pointers compares
  the indices.\<close>

type_synonym page_ptr = nat

record buddy_state =
  g_memory :: addr
  g_pages :: "page_t list"
  free_area :: "int \<Rightarrow> page_ptr list"

text \<open>
  Modelled from the spec: \<open>list.h\<close> (\<open>INIT_LIST_HEAD\<close>, \<open>list_add\<close>, \<open>list_del_init\<close>,
  \<open>list_empty\<close>, \<open>list_for_each\<close>, \<open>list_entry\<close>) is not among the sources. A free list
  is the list of the descriptors linked on it, first element first. \<open>INIT_LIST_HEAD\<close>
  "clears" the list, \<open>list_add\<close> "inserts at the head", \<open>list_del_init\<close> "removes" a
  descriptor from the list it is linked on (the one the caller has just found it on),
  \<open>list_for_each\<close> visits every element. This is the behaviour of the linked lists as long
  as no descriptor is linked twice, which is invariant 4 of the spec; it holds in every
  state that calls satisfying their preconditions reach (\<open>reachable_lists_proper\<close>
  below).
\<close>

definition INIT_LIST_HEAD :: "int \<Rightarrow> (int \<Rightarrow> page_ptr list) \<Rightarrow> (int \<Rightarrow> page_ptr list)" where
  "INIT_LIST_HEAD k fa = fa(k := [])"

definition list_add :: "page_ptr \<Rightarrow> int \<Rightarrow> buddy_state \<Rightarrow> buddy_state" where
  "list_add p k s = s\<lparr>free_area := (free_area s)(k := p # free_area s k)\<rparr>"

definition list_del_init :: "page_ptr \<Rightarrow> int \<Rightarrow> buddy_state \<Rightarrow> buddy_state" where
  "list_del_init p k s = s\<lparr>free_area := (free_area s)(k := remove1 p (free_area s k))\<rparr>"

text \<open>The assignment \<open>p->order = k\<close>.\<close>

definition set_order :: "page_ptr \<Rightarrow> int \<Rightarrow> buddy_state \<Rightarrow> buddy_state" where
  "set_order p k s = s\<lparr>g_pages := (g_pages s)[p := (g_pages s ! p)\<lparr>order := k\<rparr>]\<rparr>"

text \<open>
  What a call can do instead of returning. \<open>InvalidOrder k\<close>: \<open>buddy_free\<close> has printed
  "ERROR: invalid order: currentOrder=k" and spins in \<open>while(1);\<close>, so the call never
  returns. \<open>Undefined\<close>: the C code indexes \<open>g_pages\<close> or \<open>free_area\<close> outside the objects
  that \<open>buddy_init\<close> set up, or shifts by a negative count.
\<close>

datatype fault = InvalidOrder int | Undefined

subsection \<open>buddy_init\<close>

text \<open>The first loop writes every field of every descriptor, the second one clears the
  lists of the orders \<open>MIN_ORDER..MAX_ORDER\<close> and leaves the other heads alone.\<close>

definition buddy_init :: "buddy_state \<Rightarrow> buddy_state" where
  "buddy_init s =
     (let s1 = s\<lparr>g_pages :=
                  map (\<lambda>i. \<lparr>index = int i, address = PAGE_TO_ADDR (g_memory s) (int i),
                            order = - 1\<rparr>) [0..<n_pages]\<rparr>;
          s2 = s1\<lparr>free_area :=
                  fold INIT_LIST_HEAD [MIN_ORDER..MAX_ORDER] (free_area s1)\<rparr>;
          s3 = set_order 0 MAX_ORDER s2
      in list_add 0 MAX_ORDER s3)"

subsection \<open>determineOrder\<close>

text \<open>The parameter \<open>size\<close> of the source is \<open>sz\<close> here. It is a C \<open>int\<close>; the model
  takes any integer, and \<open>1 << order\<close> with an order up to \<open>MAX_ORDER\<close> does not
  overflow.\<close>

function determineOrder_loop :: "int \<Rightarrow> int \<Rightarrow> int" where
  "determineOrder_loop ord sz =
     (if ord \<le> MAX_ORDER then
        (if push_bit (nat ord) 1 \<ge> sz then ord
         else determineOrder_loop (ord + 1) sz)
      else - 1)"
  by pat_completeness auto
termination
  by (relation "measure (\<lambda>(ord, sz). nat (MAX_ORDER + 1 - ord))") auto

definition determineOrder :: "int \<Rightarrow> int" where
  "determineOrder sz = determineOrder_loop MIN_ORDER sz"

subsection \<open>splitMemory\<close>

text \<open>The recursion of the source. A call with \<open>ord - 1\<close> below \<open>MIN_ORDER\<close> would link
  the buddy on a list head that \<open>buddy_init\<close> never set up.\<close>

function splitMemory :: "buddy_state \<Rightarrow> page_ptr \<Rightarrow> int \<Rightarrow> int \<Rightarrow> fault + buddy_state" where
  "splitMemory s page ord orderNeeded =
     (if ord = orderNeeded then Inr s
      else if ord - 1 < MIN_ORDER \<or> MAX_ORDER < ord - 1 then Inl Undefined
      else
        (let buddy = unat (ADDR_TO_PAGE (g_memory s)
                            (BUDDY_ADDR (g_memory s) (address (g_pages s ! page)) (ord - 1)))
         in if n_pages \<le> buddy then Inl Undefined
            else splitMemory (list_add buddy (ord - 1) (set_order buddy (ord - 1) s))
                   page (ord - 1) orderNeeded))"
  by pat_completeness auto
termination
  by (relation "measure (\<lambda>(s, page, ord, orderNeeded). nat ord)")
     (auto simp: MIN_ORDER_def)

subsection \<open>buddy_alloc\<close>

text \<open>The result is the state after the call and the returned pointer, \<open>None\<close> for
  \<open>NULL\<close>.\<close>

function buddy_alloc_loop ::
  "buddy_state \<Rightarrow> int \<Rightarrow> int \<Rightarrow> fault + (buddy_state \<times> addr option)" where
  "buddy_alloc_loop s i orderNeeded =
     (if i \<le> MAX_ORDER then
        (case free_area s i of
           [] \<Rightarrow> buddy_alloc_loop s (i + 1) orderNeeded
         | page # rest \<Rightarrow>
             (case splitMemory (list_del_init page i s) page i orderNeeded of
                Inl e \<Rightarrow> Inl e
              | Inr s' \<Rightarrow>
                  Inr (set_order page orderNeeded s',
                       Some (address (g_pages (set_order page orderNeeded s') ! page)))))
      else Inr (s, None))"
  by pat_completeness auto
termination
  by (relation "measure (\<lambda>(s, i, orderNeeded). nat (MAX_ORDER + 1 - i))") auto

definition buddy_alloc :: "buddy_state \<Rightarrow> int \<Rightarrow> fault + (buddy_state \<times> addr option)" where
  "buddy_alloc s sz =
     (let orderNeeded = determineOrder sz
      in if orderNeeded = - 1 then Inr (s, None)
         else buddy_alloc_loop s orderNeeded orderNeeded)"

subsection \<open>buddy_free\<close>

text \<open>The coalescing loop, which is the same in both copies of the source. It returns
  the state, the head \<open>page\<close> and the counter \<open>i\<close> with which the loop is left.\<close>

function buddy_free_loop ::
  "buddy_state \<Rightarrow> page_ptr \<Rightarrow> int \<Rightarrow> fault + (buddy_state \<times> page_ptr \<times> int)" where
  "buddy_free_loop s page i =
     (if i < MAX_ORDER then
        (if i < MIN_ORDER then Inl Undefined
         else
           (let buddy = unat (ADDR_TO_PAGE (g_memory s)
                               (BUDDY_ADDR (g_memory s) (address (g_pages s ! page)) i))
            in if n_pages \<le> buddy then Inl Undefined
               else if buddy \<in> set (free_area s i) then
                 buddy_free_loop (list_del_init buddy i s)
                   (if buddy < page then buddy else page) (i + 1)
               else Inr (s, page, i)))
      else Inr (s, page, i))"
  by pat_completeness auto
termination
  by (relation "measure (\<lambda>(s, page, i). nat (MAX_ORDER - i))") auto

text \<open>\<open>buddy_free\<close> of \<open>src/buddy.c\<close>, with the check of the stored order. An address
  outside the arena gives a page index outside \<open>g_pages\<close>.\<close>

definition buddy_free :: "buddy_state \<Rightarrow> addr \<Rightarrow> fault + buddy_state" where
  "buddy_free s a =
     (let page = unat (ADDR_TO_PAGE (g_memory s) a)
      in if n_pages \<le> page then Inl Undefined
         else
           (let currentOrder = order (g_pages s ! page)
            in if currentOrder < MIN_ORDER \<or> MAX_ORDER < currentOrder
               then Inl (InvalidOrder currentOrder)
               else
                 (case buddy_free_loop s page currentOrder of
                    Inl e \<Rightarrow> Inl e
                  | Inr (s', page', i) \<Rightarrow> Inr (list_add page' i (set_order page' i s')))))"

text \<open>\<open>buddy_free\<close> of \<open>src/buddy/buddy.c\<close>, which has no check: with a stored order
  below \<open>MIN_ORDER\<close> the loop starts on a list head that was never set up, and with one
  above \<open>MAX_ORDER\<close> the final \<open>list_add\<close> writes behind \<open>free_area\<close>. The other
  functions of that copy are the statements of \<open>src/buddy.c\<close> with other names for
  the local variables, and have the definitions above.\<close>

definition buddy_free2 :: "buddy_state \<Rightarrow> addr \<Rightarrow> fault + buddy_state" where
  "buddy_free2 s a =
     (let page = unat (ADDR_TO_PAGE (g_memory s) a)
      in if n_pages \<le> page then Inl Undefined
         else
           (let currentOrder = order (g_pages s ! page)
            in (case buddy_free_loop s page currentOrder of
                  Inl e \<Rightarrow> Inl e
                | Inr (s', page', i) \<Rightarrow>
                    if MAX_ORDER < i then Inl Undefined
                    else Inr (list_add page' i (set_order page' i s')))))"

section \<open>Sequences of calls\<close>

text \<open>A client's calls and what it gets back. \<open>step\<close> runs one call on the functions
  of \<open>src/buddy.c\<close>, \<open>step2\<close> on those of \<open>src/buddy/buddy.c\<close>; \<open>run\<close> and \<open>run2\<close>
  collect the state and the reply after every call, and stop where a call does not
  return.\<close>

datatype call = Init | Alloc int | Free addr

datatype reply = Done | Ptr "addr option"

fun step :: "buddy_state \<Rightarrow> call \<Rightarrow> fault + (buddy_state \<times> reply)" where
  "step s Init = Inr (buddy_init s, Done)"
| "step s (Alloc sz) =
     (case buddy_alloc s sz of Inl e \<Rightarrow> Inl e | Inr (s', r) \<Rightarrow> Inr (s', Ptr r))"
| "step s (Free a) =
     (case buddy_free s a of Inl e \<Rightarrow> Inl e | Inr s' \<Rightarrow> Inr (s', Done))"

fun step2 :: "buddy_state \<Rightarrow> call \<Rightarrow> fault + (buddy_state \<times> reply)" where
  "step2 s Init = Inr (buddy_init s, Done)"
| "step2 s (Alloc sz) =
     (case buddy_alloc s sz of Inl e \<Rightarrow> Inl e | Inr (s', r) \<Rightarrow> Inr (s', Ptr r))"
| "step2 s (Free a) =
     (case buddy_free2 s a of Inl e \<Rightarrow> Inl e | Inr s' \<Rightarrow> Inr (s', Done))"

fun run :: "buddy_state \<Rightarrow> call list \<Rightarrow> fault + (buddy_state \<times> reply) list" where
  "run s [] = Inr []"
| "run s (c # cs) =
     (case step s c of
        Inl e \<Rightarrow> Inl e
      | Inr (s', r) \<Rightarrow>
          (case run s' cs of Inl e \<Rightarrow> Inl e | Inr rs \<Rightarrow> Inr ((s', r) # rs)))"

fun run2 :: "buddy_state \<Rightarrow> call list \<Rightarrow> fault + (buddy_state \<times> reply) list" where
  "run2 s [] = Inr []"
| "run2 s (c # cs) =
     (case step2 s c of
        Inl e \<Rightarrow> Inl e
      | Inr (s', r) \<Rightarrow>
          (case run2 s' cs of Inl e \<Rightarrow> Inl e | Inr rs \<Rightarrow> Inr ((s', r) # rs)))"

text \<open>The outstanding allocations after a call: \<open>buddy_init\<close> forgets them all, a
  successful \<open>buddy_alloc\<close> adds the returned address, \<open>buddy_free\<close> removes its
  argument.\<close>

fun outstanding :: "addr set \<Rightarrow> call \<Rightarrow> reply \<Rightarrow> addr set" where
  "outstanding A Init r = {}"
| "outstanding A (Alloc sz) (Ptr (Some a)) = insert a A"
| "outstanding A (Alloc sz) r = A"
| "outstanding A (Free a) r = A - {a}"

text \<open>The precondition of the spec on a sequence of calls that starts in state \<open>s\<close> with
  the outstanding allocations \<open>A\<close>: every freed address is an outstanding allocation
  whose descriptor has a stored order between \<open>MIN_ORDER\<close> and \<open>MAX_ORDER\<close>.\<close>

definition stored_order_ok :: "buddy_state \<Rightarrow> addr \<Rightarrow> bool" where
  "stored_order_ok s a \<longleftrightarrow>
     unat (ADDR_TO_PAGE (g_memory s) a) < n_pages \<and>
     MIN_ORDER \<le> order (g_pages s ! unat (ADDR_TO_PAGE (g_memory s) a)) \<and>
     order (g_pages s ! unat (ADDR_TO_PAGE (g_memory s) a)) \<le> MAX_ORDER"

fun call_ok :: "buddy_state \<Rightarrow> addr set \<Rightarrow> call \<Rightarrow> bool" where
  "call_ok s A (Free a) = (a \<in> A \<and> stored_order_ok s a)"
| "call_ok s A c = True"

fun calls_ok :: "buddy_state \<Rightarrow> addr set \<Rightarrow> call list \<Rightarrow> bool" where
  "calls_ok s A [] = True"
| "calls_ok s A (c # cs) =
     (call_ok s A c \<and>
      (case step s c of Inl e \<Rightarrow> True | Inr (s', r) \<Rightarrow> calls_ok s' (outstanding A c r) cs))"

text \<open>The states that calls satisfying their preconditions reach from \<open>buddy_init\<close>,
  each with its set of outstanding allocations.\<close>

inductive reachable :: "buddy_state \<Rightarrow> addr set \<Rightarrow> bool" where
  reach_init: "reachable (buddy_init s0) {}"
| reach_alloc: "reachable s A \<Longrightarrow> buddy_alloc s sz = Inr (s', r) \<Longrightarrow>
     reachable s' (outstanding A (Alloc sz) (Ptr r))"
| reach_free: "reachable s A \<Longrightarrow> a \<in> A \<Longrightarrow> buddy_free s a = Inr s' \<Longrightarrow>
     reachable s' (A - {a})"

section \<open>The spec's view of blocks\<close>

text \<open>\<open>buddy_page\<close> of section 4.1 of the spec, on page indices.\<close>

definition buddy_page :: "page_ptr \<Rightarrow> int \<Rightarrow> page_ptr" where
  "buddy_page page k = page XOR 2 ^ nat (k - MIN_ORDER)"

text \<open>A block of order \<open>k\<close> starts at a page that is a multiple of its number of
  pages.\<close>

definition aligned :: "page_ptr \<Rightarrow> int \<Rightarrow> bool" where
  "aligned p k \<longleftrightarrow> 2 ^ nat (k - MIN_ORDER) dvd p"

text \<open>The descriptors hold what \<open>buddy_init\<close> wrote in \<open>index\<close> and \<open>address\<close>.\<close>

definition pages_ok :: "buddy_state \<Rightarrow> bool" where
  "pages_ok s \<longleftrightarrow>
     map (\<lambda>d. (index d, address d)) (g_pages s) =
     map (\<lambda>i. (int i, PAGE_TO_ADDR (g_memory s) (int i))) [0..<n_pages]"

text \<open>Every descriptor on a free list is in \<open>g_pages\<close> and heads an aligned block.\<close>

definition lists_ok :: "buddy_state \<Rightarrow> bool" where
  "lists_ok s \<longleftrightarrow>
     (\<forall>k \<in> {MIN_ORDER..MAX_ORDER}. \<forall>p \<in> set (free_area s k). p < n_pages \<and> aligned p k)"

text \<open>The coalescing loop in the words of section 4.5 of the spec, on the free lists
  alone: while \<open>k < MAX\<close>, look for the buddy of the head \<open>h\<close> on \<open>free[k]\<close>; stop if it
  is not there; otherwise remove it, make the lower of the two the head and increment
  \<open>k\<close>.\<close>

function coalesce_spec ::
  "(int \<Rightarrow> page_ptr list) \<Rightarrow> page_ptr \<Rightarrow> int \<Rightarrow> (int \<Rightarrow> page_ptr list) \<times> page_ptr \<times> int" where
  "coalesce_spec fa h k =
     (if k < MAX_ORDER then
        (let b = buddy_page h k
         in if b \<in> set (fa k)
            then coalesce_spec (fa(k := remove1 b (fa k))) (if b < h then b else h) (k + 1)
            else (fa, h, k))
      else (fa, h, k))"
  by pat_completeness auto
termination
  by (relation "measure (\<lambda>(fa, h, k). nat (MAX_ORDER - k))") auto

text \<open>The statics as the program starts, with \<open>g_memory\<close> at address \<open>g\<close> and every
  field of every descriptor zero. No list is set up before \<open>buddy_init\<close>; the model has
  them empty there.\<close>

definition zeroed :: "addr \<Rightarrow> buddy_state" where
  "zeroed g =
     \<lparr>g_memory = g,
      g_pages = replicate n_pages \<lparr>index = 0, address = 0, order = 0\<rparr>,
      free_area = (\<lambda>k. [])\<rparr>"

text \<open>A descriptor whose stored order is between \<open>MIN_ORDER\<close> and \<open>MAX_ORDER\<close> is aligned
  for that order.\<close>

definition orders_ok :: "buddy_state \<Rightarrow> bool" where
  "orders_ok s \<longleftrightarrow>
     (\<forall>p<n_pages. MIN_ORDER \<le> order (g_pages s ! p) \<and> order (g_pages s ! p) \<le> MAX_ORDER \<longrightarrow>
        aligned p (order (g_pages s ! p)))"

text \<open>No list below \<open>MAX_ORDER\<close> holds a block together with its buddy.\<close>

definition eager :: "(int \<Rightarrow> page_ptr list) \<Rightarrow> bool" where
  "eager fa \<longleftrightarrow>
     (\<forall>k. MIN_ORDER \<le> k \<and> k < MAX_ORDER \<longrightarrow>
        (\<forall>p \<in> set (fa k). buddy_page p k \<notin> set (fa k)))"

definition allocator_inv :: "buddy_state \<Rightarrow> bool" where
  "allocator_inv s \<longleftrightarrow> pages_ok s \<and> lists_ok s \<and> orders_ok s \<and> eager (free_area s)"

text \<open>The pages of the block of order \<open>k\<close> that starts at page \<open>p\<close>.\<close>

definition block_pages :: "page_ptr \<Rightarrow> int \<Rightarrow> page_ptr set" where
  "block_pages p k = {p ..< p + 2 ^ nat (k - MIN_ORDER)}"

text \<open>The blocks that exist in a state with the outstanding allocations \<open>A\<close>, as triples
  of a flag (free or allocated), the first page and the order: the descriptors on the
  free lists with the order of their list, and the pages of the outstanding allocations
  with their stored order.\<close>

definition extant :: "buddy_state \<Rightarrow> addr set \<Rightarrow> (bool \<times> page_ptr \<times> int) set" where
  "extant s A =
     {(True, p, k) | p k. MIN_ORDER \<le> k \<and> k \<le> MAX_ORDER \<and> p \<in> set (free_area s k)} \<union>
     {(False, p, k) | p k. \<exists>a\<in>A. p = unat (ADDR_TO_PAGE (g_memory s) a) \<and> k = order (g_pages s ! p)}"

definition region :: "bool \<times> page_ptr \<times> int \<Rightarrow> page_ptr set" where
  "region b = block_pages (fst (snd b)) (snd (snd b))"

definition apart :: "(bool \<times> page_ptr \<times> int) set \<Rightarrow> bool" where
  "apart E \<longleftrightarrow> (\<forall>b\<in>E. \<forall>c\<in>E. b \<noteq> c \<longrightarrow> region b \<inter> region c = {})"

text \<open>Invariant 4 of the spec and what it needs: no descriptor is linked twice on a list,
  every outstanding address is the address of its page, and two different blocks share no
  page (so no descriptor is on two lists, and none is both free and allocated).\<close>

definition unique_membership :: "buddy_state \<Rightarrow> addr set \<Rightarrow> bool" where
  "unique_membership s A \<longleftrightarrow>
     (\<forall>k. MIN_ORDER \<le> k \<and> k \<le> MAX_ORDER \<longrightarrow> distinct (free_area s k)) \<and>
     (\<forall>a\<in>A. a = PAGE_TO_ADDR (g_memory s) (int (unat (ADDR_TO_PAGE (g_memory s) a)))) \<and>
     apart (extant s A)"

text \<open>The defining equations are recursive conditionals; they are unfolded by hand.\<close>

declare determineOrder_loop.simps [simp del]
declare splitMemory.simps [simp del]
declare buddy_alloc_loop.simps [simp del]
declare buddy_free_loop.simps [simp del]
declare coalesce_spec.simps [simp del]

section \<open>Size to order\<close>

lemma determineOrder_loop_result:
  "0 \<le> ord \<Longrightarrow>
   (determineOrder_loop ord sz = - 1 \<and> (\<forall>k. ord \<le> k \<and> k \<le> MAX_ORDER \<longrightarrow> 2 ^ nat k < sz)) \<or>
   (ord \<le> determineOrder_loop ord sz \<and> determineOrder_loop ord sz \<le> MAX_ORDER \<and>
    sz \<le> 2 ^ nat (determineOrder_loop ord sz) \<and>
    (\<forall>k. ord \<le> k \<and> k < determineOrder_loop ord sz \<longrightarrow> 2 ^ nat k < sz))"
proof (induction ord sz rule: determineOrder_loop.induct)
  case (1 ord sz)
  consider (stop) "\<not> ord \<le> MAX_ORDER" | (hit) "ord \<le> MAX_ORDER" "sz \<le> 2 ^ nat ord"
    | (more) "ord \<le> MAX_ORDER" "\<not> sz \<le> 2 ^ nat ord"
    by blast
  then show ?case
  proof cases
    case stop
    then have "determineOrder_loop ord sz = - 1"
      by (subst determineOrder_loop.simps) simp
    with stop show ?thesis by simp
  next
    case hit
    then have "determineOrder_loop ord sz = ord"
      by (subst determineOrder_loop.simps) simp
    with hit show ?thesis by simp
  next
    case more
    then have eq: "determineOrder_loop ord sz = determineOrder_loop (ord + 1) sz"
      by (subst determineOrder_loop.simps) simp
    from more "1.prems" have IH:
      "(determineOrder_loop (ord + 1) sz = - 1 \<and>
         (\<forall>k. ord + 1 \<le> k \<and> k \<le> MAX_ORDER \<longrightarrow> 2 ^ nat k < sz)) \<or>
       (ord + 1 \<le> determineOrder_loop (ord + 1) sz \<and>
        determineOrder_loop (ord + 1) sz \<le> MAX_ORDER \<and>
        sz \<le> 2 ^ nat (determineOrder_loop (ord + 1) sz) \<and>
        (\<forall>k. ord + 1 \<le> k \<and> k < determineOrder_loop (ord + 1) sz \<longrightarrow> 2 ^ nat k < sz))"
      using "1.IH" by simp
    have step: "\<And>k. ord \<le> k \<Longrightarrow> k = ord \<or> ord + 1 \<le> k" by arith
    from more(2) have here: "2 ^ nat ord < sz" by simp
    from IH show ?thesis
    proof
      assume a: "determineOrder_loop (ord + 1) sz = - 1 \<and>
         (\<forall>k. ord + 1 \<le> k \<and> k \<le> MAX_ORDER \<longrightarrow> 2 ^ nat k < sz)"
      have "\<forall>k. ord \<le> k \<and> k \<le> MAX_ORDER \<longrightarrow> 2 ^ nat k < sz"
        using a here step by blast
      with a eq show ?thesis by simp
    next
      assume a: "ord + 1 \<le> determineOrder_loop (ord + 1) sz \<and>
        determineOrder_loop (ord + 1) sz \<le> MAX_ORDER \<and>
        sz \<le> 2 ^ nat (determineOrder_loop (ord + 1) sz) \<and>
        (\<forall>k. ord + 1 \<le> k \<and> k < determineOrder_loop (ord + 1) sz \<longrightarrow> 2 ^ nat k < sz)"
      have "\<forall>k. ord \<le> k \<and> k < determineOrder_loop (ord + 1) sz \<longrightarrow> 2 ^ nat k < sz"
        using a here step by blast
      with a eq show ?thesis by simp
    qed
  qed
qed

lemma pow2_mono_int: "0 \<le> j \<Longrightarrow> j \<le> k \<Longrightarrow> (2::int) ^ nat j \<le> 2 ^ nat k"
  by (rule power_increasing) auto

text \<open>
  Claim C6. For every integer \<open>sz\<close>, \<open>determineOrder sz\<close> is the smallest order
  between \<open>MIN_ORDER\<close> and \<open>MAX_ORDER\<close> whose block of \<open>2 ^ k\<close> bytes holds \<open>sz\<close>
  bytes; it is the sentinel \<open>-1\<close> exactly when \<open>sz\<close> is above \<open>2 ^ MAX_ORDER\<close>; and
  size 0 is mapped to \<open>MIN_ORDER\<close>.
\<close>

theorem determineOrder_smallest:
  "(2 ^ nat MAX_ORDER < sz \<longrightarrow> determineOrder sz = - 1) \<and>
   (sz \<le> 2 ^ nat MAX_ORDER \<longrightarrow>
      MIN_ORDER \<le> determineOrder sz \<and> determineOrder sz \<le> MAX_ORDER \<and>
      sz \<le> 2 ^ nat (determineOrder sz) \<and>
      (\<forall>k. MIN_ORDER \<le> k \<and> k \<le> MAX_ORDER \<and> sz \<le> 2 ^ nat k \<longrightarrow> determineOrder sz \<le> k)) \<and>
   (determineOrder sz = - 1 \<longleftrightarrow> 2 ^ nat MAX_ORDER < sz) \<and>
   determineOrder 0 = MIN_ORDER"
proof -
  have m0: "(0::int) \<le> MIN_ORDER" and mm: "MIN_ORDER \<le> MAX_ORDER"
    by (simp_all add: MIN_ORDER_def MAX_ORDER_def)
  have R: "\<And>sz. (determineOrder sz = - 1 \<and> (\<forall>k. MIN_ORDER \<le> k \<and> k \<le> MAX_ORDER \<longrightarrow> 2 ^ nat k < sz)) \<or>
   (MIN_ORDER \<le> determineOrder sz \<and> determineOrder sz \<le> MAX_ORDER \<and>
    sz \<le> 2 ^ nat (determineOrder sz) \<and>
    (\<forall>k. MIN_ORDER \<le> k \<and> k < determineOrder sz \<longrightarrow> 2 ^ nat k < sz))"
    unfolding determineOrder_def by (rule determineOrder_loop_result [OF m0])
  have big: "determineOrder sz = - 1" if "2 ^ nat MAX_ORDER < sz"
  proof -
    { assume a: "MIN_ORDER \<le> determineOrder sz" "determineOrder sz \<le> MAX_ORDER"
        "sz \<le> 2 ^ nat (determineOrder sz)"
      have "(2::int) ^ nat (determineOrder sz) \<le> 2 ^ nat MAX_ORDER"
        using a m0 by (intro pow2_mono_int) auto
      with a that have False by simp }
    with R [of sz] show ?thesis by blast
  qed
  have small: "MIN_ORDER \<le> determineOrder sz \<and> determineOrder sz \<le> MAX_ORDER \<and>
      sz \<le> 2 ^ nat (determineOrder sz) \<and>
      (\<forall>k. MIN_ORDER \<le> k \<and> k \<le> MAX_ORDER \<and> sz \<le> 2 ^ nat k \<longrightarrow> determineOrder sz \<le> k)"
    if "sz \<le> 2 ^ nat MAX_ORDER"
  proof -
    from R [of sz] that mm have r: "MIN_ORDER \<le> determineOrder sz \<and> determineOrder sz \<le> MAX_ORDER \<and>
      sz \<le> 2 ^ nat (determineOrder sz) \<and>
      (\<forall>k. MIN_ORDER \<le> k \<and> k < determineOrder sz \<longrightarrow> 2 ^ nat k < sz)"
      by (metis linorder_not_less order_refl)
    then have "\<forall>k. MIN_ORDER \<le> k \<and> k \<le> MAX_ORDER \<and> sz \<le> 2 ^ nat k \<longrightarrow> determineOrder sz \<le> k"
      by (metis linorder_not_less)
    with r show ?thesis by blast
  qed
  have iff: "determineOrder sz = - 1 \<longleftrightarrow> 2 ^ nat MAX_ORDER < sz"
  proof
    assume a: "determineOrder sz = - 1"
    show "2 ^ nat MAX_ORDER < sz"
    proof (rule ccontr)
      assume "\<not> 2 ^ nat MAX_ORDER < sz"
      then have "MIN_ORDER \<le> determineOrder sz" using small by simp
      with a m0 show False by simp
    qed
  qed (rule big)
  have zero: "determineOrder 0 = MIN_ORDER"
    unfolding determineOrder_def by (subst determineOrder_loop.simps) (simp add: MIN_ORDER_def MAX_ORDER_def)
  from big small iff zero show ?thesis by blast
qed

theorem determineOrder_smallest_witness:
  "determineOrder 5000 = 13 \<and> determineOrder 2000000 = - 1"
proof -
  have a: "(5000::int) \<le> 2 ^ nat MAX_ORDER" and b: "(2::int) ^ nat MAX_ORDER < 2000000"
    and c: "MIN_ORDER \<le> 13 \<and> 13 \<le> MAX_ORDER \<and> (5000::int) \<le> 2 ^ nat 13"
    by (simp_all add: MAX_ORDER_def MIN_ORDER_def)
  from determineOrder_smallest [of 5000] a c
  have lo: "MIN_ORDER \<le> determineOrder 5000" and hi: "determineOrder 5000 \<le> 13"
    and fit: "(5000::int) \<le> 2 ^ nat (determineOrder 5000)"
    by blast+
  have "determineOrder 5000 \<noteq> 12"
    using fit by auto
  with lo hi have "determineOrder 5000 = 13"
    by (simp add: MIN_ORDER_def)
  moreover from determineOrder_smallest [of 2000000] b have "determineOrder 2000000 = - 1"
    by blast
  ultimately show ?thesis by simp
qed

section \<open>Address arithmetic\<close>

lemma PAGE_SIZE_eq: "PAGE_SIZE = 4096" by (simp add: PAGE_SIZE_def MIN_ORDER_def)
lemma n_pages_eq: "n_pages = 256" by (simp add: n_pages_def PAGE_SIZE_eq MAX_ORDER_def)

lemma xor_pow2_less:
  fixes p :: nat
  assumes "p < 2 ^ n" "m < n"
  shows "p XOR 2 ^ m < 2 ^ n"
proof -
  have "take_bit n (p XOR 2 ^ m) = take_bit n p XOR take_bit n (2 ^ m)"
    by (rule take_bit_xor)
  also have "take_bit n p = p"
    using assms by (simp add: take_bit_nat_eq_self_iff)
  also have "take_bit n ((2::nat) ^ m) = 2 ^ m"
    using assms by (simp add: take_bit_nat_eq_self_iff)
  finally show ?thesis
    by (simp only: take_bit_nat_eq_self_iff)
qed

lemma unat_page_offset:
  assumes "p < n_pages"
  shows "unat (word_of_int (int p * PAGE_SIZE) :: addr) = p * 4096"
proof -
  have "(word_of_int (int p * PAGE_SIZE) :: addr) = word_of_nat (p * 4096)"
    by (simp add: PAGE_SIZE_eq)
  moreover have "p * 4096 < 2 ^ LENGTH(64)"
    using assms by (simp add: n_pages_eq)
  ultimately show ?thesis
    by (simp only: unat_of_nat mod_less)
qed

lemma ADDR_TO_PAGE_PAGE_TO_ADDR:
  assumes "p < n_pages"
  shows "unat (ADDR_TO_PAGE g (PAGE_TO_ADDR g (int p))) = p"
proof -
  have "unat (ADDR_TO_PAGE g (PAGE_TO_ADDR g (int p)))
      = unat (word_of_int (int p * PAGE_SIZE) :: addr) div unat (4096 :: addr)"
    by (simp add: ADDR_TO_PAGE_def PAGE_TO_ADDR_def unat_div PAGE_SIZE_eq)
  also have "\<dots> = p * 4096 div 4096"
    by (simp only: unat_page_offset [OF assms]) simp
  finally show ?thesis by simp
qed

lemma nat_buddy_div:
  fixes p :: nat
  assumes "12 \<le> n"
  shows "(p * 4096 XOR 2 ^ n) div 4096 = p XOR 2 ^ (n - 12)"
proof -
  have "p * 4096 = push_bit 12 p"
    by (simp add: push_bit_eq_mult)
  moreover have "(2::nat) ^ n = push_bit 12 (2 ^ (n - 12))"
  proof -
    have "(2::nat) ^ n = 2 ^ ((n - 12) + 12)" using assms by simp
    also have "\<dots> = 2 ^ (n - 12) * 2 ^ 12" by (rule power_add)
    finally show ?thesis by (simp add: push_bit_eq_mult)
  qed
  ultimately have "p * 4096 XOR 2 ^ n = push_bit 12 (p XOR 2 ^ (n - 12))"
    by (simp only: push_bit_xor)
  then have "(p * 4096 XOR 2 ^ n) div 4096 = drop_bit 12 (push_bit 12 (p XOR 2 ^ (n - 12)))"
    by (simp add: drop_bit_eq_div)
  then show ?thesis
    by (simp add: drop_bit_push_bit)
qed

lemma ADDR_TO_PAGE_BUDDY_ADDR:
  assumes "p < n_pages" "MIN_ORDER \<le> k" "k < MAX_ORDER"
  shows "unat (ADDR_TO_PAGE g (BUDDY_ADDR g (PAGE_TO_ADDR g (int p)) k)) = buddy_page p k"
proof -
  from assms have n: "12 \<le> nat k" "nat k < 64" "nat (k - MIN_ORDER) = nat k - 12"
    by (simp_all add: MIN_ORDER_def MAX_ORDER_def)
  have pw: "unat (word_of_int (push_bit (nat k) 1) :: addr) = 2 ^ nat k"
  proof -
    have "(word_of_int (push_bit (nat k) 1) :: addr) = word_of_nat (2 ^ nat k)"
      by simp
    moreover have "(2::nat) ^ nat k < 2 ^ LENGTH(64)"
      using n(2) by (simp only: len_bit0 len_num1 power_strict_increasing_iff)
    ultimately show ?thesis
      by (simp only: unat_of_nat mod_less)
  qed
  have "unat (ADDR_TO_PAGE g (BUDDY_ADDR g (PAGE_TO_ADDR g (int p)) k))
      = unat ((word_of_int (int p * PAGE_SIZE) :: addr) XOR word_of_int (push_bit (nat k) 1))
          div unat (4096 :: addr)"
    by (simp add: ADDR_TO_PAGE_def BUDDY_ADDR_def PAGE_TO_ADDR_def unat_div PAGE_SIZE_eq)
  also have "\<dots> = (p * 4096 XOR 2 ^ nat k) div 4096"
    by (simp only: unsigned_xor_eq unat_page_offset [OF assms(1)] pw) simp
  also have "\<dots> = p XOR 2 ^ (nat k - 12)"
    by (rule nat_buddy_div [OF n(1)])
  finally show ?thesis
    by (simp add: buddy_page_def n)
qed

section \<open>Fields after the elementary updates\<close>

lemma list_add_fields [simp]:
  "g_memory (list_add p k s) = g_memory s"
  "g_pages (list_add p k s) = g_pages s"
  "free_area (list_add p k s) = (free_area s)(k := p # free_area s k)"
  by (simp_all add: list_add_def)

lemma list_del_init_fields [simp]:
  "g_memory (list_del_init p k s) = g_memory s"
  "g_pages (list_del_init p k s) = g_pages s"
  "free_area (list_del_init p k s) = (free_area s)(k := remove1 p (free_area s k))"
  by (simp_all add: list_del_init_def)

lemma set_order_fields [simp]:
  "g_memory (set_order p k s) = g_memory s"
  "free_area (set_order p k s) = free_area s"
  "length (g_pages (set_order p k s)) = length (g_pages s)"
  by (simp_all add: set_order_def)

lemma set_order_nth:
  "q < length (g_pages s) \<Longrightarrow>
   g_pages (set_order p k s) ! q = (if q = p then (g_pages s ! p)\<lparr>order := k\<rparr> else g_pages s ! q)"
  by (simp add: set_order_def nth_list_update)

lemma set_order_address [simp]:
  "address (g_pages (set_order p k s) ! q) = address (g_pages s ! q)"
  by (cases "p < length (g_pages s)"; cases "q = p")
     (simp_all add: set_order_def list_update_beyond)

lemma set_order_index [simp]:
  "index (g_pages (set_order p k s) ! q) = index (g_pages s ! q)"
  by (cases "p < length (g_pages s)"; cases "q = p")
     (simp_all add: set_order_def list_update_beyond)

lemma set_order_order:
  "p < length (g_pages s) \<Longrightarrow>
   order (g_pages (set_order p k s) ! q) = (if q = p then k else order (g_pages s ! q))"
  by (simp add: set_order_def nth_list_update)

lemma pages_ok_length: "pages_ok s \<Longrightarrow> length (g_pages s) = n_pages"
  unfolding pages_ok_def by (drule arg_cong [where f = length]) simp

lemma pages_ok_nth:
  assumes "pages_ok s" "p < n_pages"
  shows "address (g_pages s ! p) = PAGE_TO_ADDR (g_memory s) (int p)"
    and "index (g_pages s ! p) = int p"
proof -
  from assms have len: "p < length (g_pages s)" by (simp add: pages_ok_length)
  from assms(1) have "map (\<lambda>d. (index d, address d)) (g_pages s) ! p
      = map (\<lambda>i. (int i, PAGE_TO_ADDR (g_memory s) (int i))) [0..<n_pages] ! p"
    by (simp only: pages_ok_def)
  with len assms(2) have "(index (g_pages s ! p), address (g_pages s ! p))
      = (int p, PAGE_TO_ADDR (g_memory s) (int p))"
    by simp
  then show "address (g_pages s ! p) = PAGE_TO_ADDR (g_memory s) (int p)"
    and "index (g_pages s ! p) = int p" by simp_all
qed

lemma pages_ok_set_order [simp]: "pages_ok (set_order p k s) = pages_ok s"
proof -
  have "map (\<lambda>d. (index d, address d)) (g_pages (set_order p k s))
      = map (\<lambda>d. (index d, address d)) (g_pages s)"
    by (rule nth_equalityI) simp_all
  then show ?thesis by (simp add: pages_ok_def)
qed

lemma pages_ok_list_add [simp]: "pages_ok (list_add p k s) = pages_ok s"
  by (simp add: pages_ok_def)

lemma pages_ok_list_del_init [simp]: "pages_ok (list_del_init p k s) = pages_ok s"
  by (simp add: pages_ok_def)

section \<open>Initialisation\<close>

lemma fold_INIT_LIST_HEAD:
  "fold INIT_LIST_HEAD ks fa k = (if k \<in> set ks then [] else fa k)"
  by (induction ks arbitrary: fa) (auto simp: INIT_LIST_HEAD_def)

lemma buddy_init_fields:
  "g_memory (buddy_init s) = g_memory s"
  "free_area (buddy_init s) =
     (\<lambda>k. if k = MAX_ORDER then [0] else if MIN_ORDER \<le> k \<and> k \<le> MAX_ORDER then [] else free_area s k)"
  "length (g_pages (buddy_init s)) = n_pages"
proof -
  have le: "MIN_ORDER \<le> MAX_ORDER" by (simp add: MIN_ORDER_def MAX_ORDER_def)
  show "g_memory (buddy_init s) = g_memory s"
    by (simp add: buddy_init_def Let_def)
  show "length (g_pages (buddy_init s)) = n_pages"
    by (simp add: buddy_init_def Let_def)
  show "free_area (buddy_init s) =
     (\<lambda>k. if k = MAX_ORDER then [0] else if MIN_ORDER \<le> k \<and> k \<le> MAX_ORDER then [] else free_area s k)"
    using le by (auto simp: buddy_init_def Let_def fold_INIT_LIST_HEAD fun_eq_iff)
qed

lemma buddy_init_nth:
  assumes "p < n_pages"
  shows "g_pages (buddy_init s) ! p =
     \<lparr>index = int p, address = PAGE_TO_ADDR (g_memory s) (int p),
      order = (if p = 0 then MAX_ORDER else - 1)\<rparr>"
proof -
  let ?f = "\<lambda>i. \<lparr>index = int i, address = PAGE_TO_ADDR (g_memory s) (int i), order = - 1\<rparr>"
  have g: "g_pages (buddy_init s) = (map ?f [0..<n_pages])[0 := (map ?f [0..<n_pages] ! 0)\<lparr>order := MAX_ORDER\<rparr>]"
    by (simp add: buddy_init_def Let_def set_order_def)
  have pos: "0 < n_pages" using assms by simp
  show ?thesis
    unfolding g using assms pos by (simp add: nth_list_update del: upt_Suc)
qed

lemma pages_ok_buddy_init: "pages_ok (buddy_init s)"
  unfolding pages_ok_def
  by (rule nth_equalityI) (simp_all add: buddy_init_fields buddy_init_nth)

lemma PAGE_TO_ADDR_eq: "PAGE_TO_ADDR g (int p) = g + word_of_nat p * 2 ^ nat MIN_ORDER"
  by (simp add: PAGE_TO_ADDR_def PAGE_SIZE_def)

text \<open>
  Claim C8. After \<open>buddy_init\<close>, whatever the state before (so also after earlier
  calls), every descriptor \<open>p\<close> has \<open>index = p\<close> and \<open>address = base + p * 2 ^ MIN_ORDER\<close>,
  descriptor 0 has order \<open>MAX_ORDER\<close> and is the only element of \<open>free_area[MAX_ORDER]\<close>,
  and the lists of the orders from \<open>MIN_ORDER\<close> below \<open>MAX_ORDER\<close> are empty. The
  descriptors and these lists do not depend on the state before.
\<close>

theorem buddy_init_state:
  "length (g_pages (buddy_init s)) = n_pages \<and>
   g_memory (buddy_init s) = g_memory s \<and>
   (\<forall>p<n_pages. index (g_pages (buddy_init s) ! p) = int p \<and>
       address (g_pages (buddy_init s) ! p) = g_memory s + word_of_nat p * 2 ^ nat MIN_ORDER) \<and>
   order (g_pages (buddy_init s) ! 0) = MAX_ORDER \<and>
   free_area (buddy_init s) MAX_ORDER = [0] \<and>
   (\<forall>k. MIN_ORDER \<le> k \<and> k < MAX_ORDER \<longrightarrow> free_area (buddy_init s) k = []) \<and>
   (\<forall>s'. g_memory s' = g_memory s \<longrightarrow>
       g_pages (buddy_init s') = g_pages (buddy_init s) \<and>
       (\<forall>k. MIN_ORDER \<le> k \<and> k \<le> MAX_ORDER \<longrightarrow>
          free_area (buddy_init s') k = free_area (buddy_init s) k))"
proof -
  have pos: "0 < n_pages" by (simp add: n_pages_eq)
  have pages: "g_pages (buddy_init s') = g_pages (buddy_init s)" if "g_memory s' = g_memory s" for s'
    by (rule nth_equalityI) (simp_all add: buddy_init_fields buddy_init_nth that)
  have fixed: "\<forall>p<n_pages. index (g_pages (buddy_init s) ! p) = int p \<and>
       address (g_pages (buddy_init s) ! p) = g_memory s + word_of_nat p * 2 ^ nat MIN_ORDER"
    by (simp add: buddy_init_nth PAGE_TO_ADDR_eq)
  have head: "order (g_pages (buddy_init s) ! 0) = MAX_ORDER"
    using pos by (simp add: buddy_init_nth)
  have lists: "free_area (buddy_init s) MAX_ORDER = [0]"
    "\<forall>k. MIN_ORDER \<le> k \<and> k < MAX_ORDER \<longrightarrow> free_area (buddy_init s) k = []"
    by (simp_all add: buddy_init_fields)
  have reset: "\<forall>s'. g_memory s' = g_memory s \<longrightarrow>
       g_pages (buddy_init s') = g_pages (buddy_init s) \<and>
       (\<forall>k. MIN_ORDER \<le> k \<and> k \<le> MAX_ORDER \<longrightarrow>
          free_area (buddy_init s') k = free_area (buddy_init s) k)"
  proof (intro allI impI conjI)
    fix s' :: buddy_state assume "g_memory s' = g_memory s"
    then show "g_pages (buddy_init s') = g_pages (buddy_init s)" by (rule pages)
  next
    fix s' :: buddy_state and k assume "g_memory s' = g_memory s" "MIN_ORDER \<le> k \<and> k \<le> MAX_ORDER"
    then show "free_area (buddy_init s') k = free_area (buddy_init s) k"
      by (simp add: buddy_init_fields(2))
  qed
  from fixed head lists reset buddy_init_fields(1,3) [of s] show ?thesis
    by blast
qed

theorem buddy_init_state_witness:
  "index (g_pages (buddy_init (zeroed 65536)) ! 3) = 3 \<and>
   address (g_pages (buddy_init (zeroed 65536)) ! 3) = 77824 \<and>
   free_area (buddy_init (zeroed 65536)) 15 = [] \<and>
   g_pages (buddy_init (buddy_init (zeroed 65536))) = g_pages (buddy_init (zeroed 65536))"
proof -
  have a: "(3::nat) < n_pages" by (simp add: n_pages_eq)
  have b: "MIN_ORDER \<le> 15 \<and> 15 < MAX_ORDER" by (simp add: MIN_ORDER_def MAX_ORDER_def)
  have c: "g_memory (buddy_init (zeroed 65536)) = g_memory (zeroed 65536)"
    by (simp add: buddy_init_fields)
  have d: "g_memory (zeroed 65536) + word_of_nat 3 * 2 ^ nat MIN_ORDER = 77824"
    by (simp add: zeroed_def MIN_ORDER_def)
  note init = buddy_init_state [of "zeroed 65536"]
  from init a have "index (g_pages (buddy_init (zeroed 65536)) ! 3) = int 3"
    by blast
  moreover from init a have "address (g_pages (buddy_init (zeroed 65536)) ! 3)
      = g_memory (zeroed 65536) + word_of_nat 3 * 2 ^ nat MIN_ORDER"
    by blast
  moreover from init b have "free_area (buddy_init (zeroed 65536)) 15 = []"
    by blast
  moreover from init c
  have "g_pages (buddy_init (buddy_init (zeroed 65536))) = g_pages (buddy_init (zeroed 65536))"
    by blast
  ultimately show ?thesis
    using d by simp
qed

section \<open>Failed allocations\<close>

lemma determineOrder_cases:
  "(determineOrder sz = - 1 \<and> 2 ^ nat MAX_ORDER < sz) \<or>
   (MIN_ORDER \<le> determineOrder sz \<and> determineOrder sz \<le> MAX_ORDER \<and> sz \<le> 2 ^ nat MAX_ORDER)"
proof -
  have m0: "(0::int) \<le> MIN_ORDER" and mm: "MIN_ORDER \<le> MAX_ORDER"
    by (simp_all add: MIN_ORDER_def MAX_ORDER_def)
  from determineOrder_loop_result [OF m0, of sz]
  consider (none) "determineOrder sz = - 1" "\<forall>k. MIN_ORDER \<le> k \<and> k \<le> MAX_ORDER \<longrightarrow> 2 ^ nat k < sz"
    | (some) "MIN_ORDER \<le> determineOrder sz" "determineOrder sz \<le> MAX_ORDER"
        "sz \<le> 2 ^ nat (determineOrder sz)"
    unfolding determineOrder_def by blast
  then show ?thesis
  proof cases
    case none
    with mm show ?thesis by simp
  next
    case some
    have "(2::int) ^ nat (determineOrder sz) \<le> 2 ^ nat MAX_ORDER"
      using some m0 by (intro pow2_mono_int) auto
    with some(3) have "sz \<le> 2 ^ nat MAX_ORDER" by (rule order_trans)
    with some show ?thesis by blast
  qed
qed

lemma buddy_alloc_loop_None:
  "buddy_alloc_loop s i T = Inr (s', None) \<Longrightarrow> s' = s"
proof (induction s i T rule: buddy_alloc_loop.induct)
  case (1 s i T)
  show ?case
  proof (cases "i \<le> MAX_ORDER")
    case False
    with "1.prems" show ?thesis
      by (subst (asm) buddy_alloc_loop.simps) simp
  next
    case True
    show ?thesis
    proof (cases "free_area s i")
      case Nil
      with True "1.prems" have "buddy_alloc_loop s (i + 1) T = Inr (s', None)"
        by (subst (asm) buddy_alloc_loop.simps) simp
      with True Nil show ?thesis by (rule "1.IH")
    next
      case (Cons page rest)
      with True "1.prems" show ?thesis
        by (subst (asm) buddy_alloc_loop.simps) (simp split: sum.splits)
    qed
  qed
qed

lemma buddy_alloc_loop_empty:
  "\<forall>k. i \<le> k \<and> k \<le> MAX_ORDER \<longrightarrow> free_area s k = [] \<Longrightarrow>
   buddy_alloc_loop s i T = Inr (s, None)"
proof (induction s i T rule: buddy_alloc_loop.induct)
  case (1 s i T)
  show ?case
  proof (cases "i \<le> MAX_ORDER")
    case False
    then show ?thesis
      by (subst buddy_alloc_loop.simps) simp
  next
    case True
    with "1.prems" have nil: "free_area s i = []" by simp
    from "1.prems" have "\<forall>k. i + 1 \<le> k \<and> k \<le> MAX_ORDER \<longrightarrow> free_area s k = []" by simp
    with True nil have "buddy_alloc_loop s (i + 1) T = Inr (s, None)" by (rule "1.IH")
    with True nil show ?thesis
      by (subst buddy_alloc_loop.simps) simp
  qed
qed

text \<open>
  Claim C7. \<open>buddy_alloc\<close> returns \<open>NULL\<close> for every size above \<open>2 ^ MAX_ORDER\<close>, and
  also when no list of an order from the needed one up holds a block; and whenever it
  returns \<open>NULL\<close>, the state after the call (every free list and every descriptor) is the
  state before it.
\<close>

theorem buddy_alloc_null_atomic:
  "(2 ^ nat MAX_ORDER < sz \<longrightarrow> buddy_alloc s sz = Inr (s, None)) \<and>
   ((\<forall>k. determineOrder sz \<le> k \<and> k \<le> MAX_ORDER \<longrightarrow> free_area s k = []) \<longrightarrow>
      buddy_alloc s sz = Inr (s, None)) \<and>
   (buddy_alloc s sz = Inr (s', None) \<longrightarrow> s' = s)"
proof (intro conjI impI)
  assume "2 ^ nat MAX_ORDER < sz"
  then have "determineOrder sz = - 1"
    using determineOrder_cases [of sz] by simp
  then show "buddy_alloc s sz = Inr (s, None)"
    by (simp add: buddy_alloc_def)
next
  assume "\<forall>k. determineOrder sz \<le> k \<and> k \<le> MAX_ORDER \<longrightarrow> free_area s k = []"
  then show "buddy_alloc s sz = Inr (s, None)"
    by (simp add: buddy_alloc_def Let_def buddy_alloc_loop_empty)
next
  assume "buddy_alloc s sz = Inr (s', None)"
  then show "s' = s"
    by (auto simp: buddy_alloc_def Let_def split: if_splits dest: buddy_alloc_loop_None)
qed

theorem buddy_alloc_null_atomic_witness:
  "buddy_alloc (buddy_init (zeroed 65536)) 2000000 = Inr (buddy_init (zeroed 65536), None) \<and>
   buddy_alloc (list_del_init 0 MAX_ORDER (buddy_init (zeroed 65536))) 1
     = Inr (list_del_init 0 MAX_ORDER (buddy_init (zeroed 65536)), None)"
proof -
  have big: "(2::int) ^ nat MAX_ORDER < 2000000"
    by (simp add: MAX_ORDER_def)
  have none: "\<forall>k. determineOrder 1 \<le> k \<and> k \<le> MAX_ORDER \<longrightarrow>
      free_area (list_del_init 0 MAX_ORDER (buddy_init (zeroed 65536))) k = []"
    using determineOrder_cases [of 1] by (auto simp: buddy_init_fields zeroed_def)
  from buddy_alloc_null_atomic [of 2000000 "buddy_init (zeroed 65536)"] big
  have "buddy_alloc (buddy_init (zeroed 65536)) 2000000 = Inr (buddy_init (zeroed 65536), None)"
    by blast
  moreover
  from buddy_alloc_null_atomic [of 1 "list_del_init 0 MAX_ORDER (buddy_init (zeroed 65536))"] none
  have "buddy_alloc (list_del_init 0 MAX_ORDER (buddy_init (zeroed 65536))) 1
     = Inr (list_del_init 0 MAX_ORDER (buddy_init (zeroed 65536)), None)"
    by blast
  ultimately show ?thesis by simp
qed

section \<open>Buddies\<close>

lemma buddy_page_involution [simp]: "buddy_page (buddy_page p k) k = p"
  by (simp add: buddy_page_def xor.assoc)

lemma buddy_page_neq [simp]: "buddy_page p k \<noteq> p"
proof
  assume "buddy_page p k = p"
  then have "p XOR (p XOR 2 ^ nat (k - MIN_ORDER)) = p XOR p"
    by (simp add: buddy_page_def)
  then have "(2::nat) ^ nat (k - MIN_ORDER) = 0"
    by (simp flip: xor.assoc)
  then show False by simp
qed

lemma buddy_page_less:
  assumes "p < n_pages" "MIN_ORDER \<le> k" "k < MAX_ORDER"
  shows "buddy_page p k < n_pages"
proof -
  from assms have "nat (k - MIN_ORDER) < 8"
    by (simp add: MIN_ORDER_def MAX_ORDER_def)
  moreover from assms have "p < 2 ^ 8"
    by (simp add: n_pages_eq)
  ultimately have "p XOR 2 ^ nat (k - MIN_ORDER) < 2 ^ 8"
    by (rule xor_pow2_less [rotated])
  then show ?thesis
    by (simp add: buddy_page_def n_pages_eq)
qed

lemma buddy_page_inj:
  assumes "buddy_page p j = buddy_page p k" "MIN_ORDER \<le> j" "MIN_ORDER \<le> k"
  shows "j = k"
proof -
  from assms(1) have "p XOR (p XOR 2 ^ nat (j - MIN_ORDER)) = p XOR (p XOR 2 ^ nat (k - MIN_ORDER))"
    by (simp add: buddy_page_def)
  then have "(2::nat) ^ nat (j - MIN_ORDER) = 2 ^ nat (k - MIN_ORDER)"
    by (simp flip: xor.assoc)
  then have "nat (j - MIN_ORDER) = nat (k - MIN_ORDER)"
    by simp
  with assms(2,3) show ?thesis by simp
qed

lemma xor_pow2_aligned:
  fixes b :: nat
  shows "push_bit m b XOR 2 ^ m = push_bit m (b XOR 1)"
  by (simp only: push_bit_xor push_bit_of_1)

lemma xor_one_even: "even b \<Longrightarrow> (b::nat) XOR 1 = b + 1"
  by (simp add: xor_Suc_0_eq)

lemma xor_one_odd: "odd b \<Longrightarrow> (b::nat) XOR 1 = b - 1"
  by (simp add: xor_Suc_0_eq)

lemma aligned_buddy_page:
  assumes "aligned p k"
  shows "aligned (buddy_page p k) k"
proof -
  from assms obtain b where "p = push_bit (nat (k - MIN_ORDER)) b"
    unfolding aligned_def by (rule exp_dvdE)
  then have "buddy_page p k = push_bit (nat (k - MIN_ORDER)) (b XOR 1)"
    by (simp only: buddy_page_def xor_pow2_aligned)
  then show ?thesis
    by (simp add: aligned_def push_bit_eq_mult)
qed

lemma aligned_down:
  assumes "aligned p k" "j \<le> k"
  shows "aligned p j"
proof -
  have "(2::nat) ^ nat (j - MIN_ORDER) dvd 2 ^ nat (k - MIN_ORDER)"
    using assms(2) by (intro le_imp_power_dvd) simp
  with assms(1) show ?thesis
    unfolding aligned_def by (rule dvd_trans [rotated])
qed

text \<open>The buddy of a block that is aligned for the next order is its right neighbour.\<close>

lemma buddy_page_right:
  assumes "aligned p (k + 1)" "MIN_ORDER \<le> k"
  shows "buddy_page p k = p + 2 ^ nat (k - MIN_ORDER)"
proof -
  from assms(2) have s: "nat (k + 1 - MIN_ORDER) = Suc (nat (k - MIN_ORDER))" by simp
  from assms(1) obtain b where "p = push_bit (Suc (nat (k - MIN_ORDER))) b"
    unfolding aligned_def s by (rule exp_dvdE)
  then have p: "p = push_bit (nat (k - MIN_ORDER)) (2 * b)"
    by (simp add: push_bit_eq_mult)
  have "buddy_page p k = push_bit (nat (k - MIN_ORDER)) (2 * b XOR 1)"
    unfolding buddy_page_def by (subst p) (rule xor_pow2_aligned)
  also have "2 * b XOR 1 = 2 * b + 1"
    by (rule xor_one_even) simp
  finally show ?thesis
    by (subst (2) p) (simp add: push_bit_eq_mult algebra_simps)
qed

text \<open>The lower of two buddies is aligned for the next order.\<close>

lemma aligned_merge:
  assumes "aligned p k" "MIN_ORDER \<le> k"
  shows "aligned (if buddy_page p k < p then buddy_page p k else p) (k + 1)"
proof -
  from assms(2) have s: "nat (k + 1 - MIN_ORDER) = Suc (nat (k - MIN_ORDER))" by simp
  from assms(1) obtain b where p: "p = push_bit (nat (k - MIN_ORDER)) b"
    unfolding aligned_def by (rule exp_dvdE)
  have bp: "buddy_page p k = push_bit (nat (k - MIN_ORDER)) (b XOR 1)"
    unfolding buddy_page_def by (subst p) (rule xor_pow2_aligned)
  show ?thesis
  proof (cases "even b")
    case True
    then have "b XOR 1 = b + 1" by (rule xor_one_even)
    with bp p have "\<not> buddy_page p k < p"
      by (simp add: push_bit_eq_mult)
    moreover from True obtain c where "b = 2 * c" ..
    with p have "aligned p (k + 1)"
      by (simp add: aligned_def s push_bit_eq_mult)
    ultimately show ?thesis by simp
  next
    case False
    then have x: "b XOR 1 = b - 1" by (rule xor_one_odd)
    from False have "0 < b" by (cases b) simp_all
    with bp p x have "buddy_page p k < p"
      by (simp add: push_bit_eq_mult)
    moreover from False obtain c where "b = 2 * c + 1" by (rule oddE)
    with bp x have "aligned (buddy_page p k) (k + 1)"
      by (simp add: aligned_def s push_bit_eq_mult)
    ultimately show ?thesis by simp
  qed
qed

lemma BUDDY_ADDR_PAGE_TO_ADDR:
  assumes "MIN_ORDER \<le> k"
  shows "BUDDY_ADDR g (PAGE_TO_ADDR g (int p)) k = PAGE_TO_ADDR g (int (buddy_page p k))"
proof -
  from assms have n: "nat k = nat (k - MIN_ORDER) + 12"
    by (simp add: MIN_ORDER_def)
  have a: "(word_of_int (int q * PAGE_SIZE) :: addr) = push_bit 12 (word_of_nat q)" for q
    by (simp add: PAGE_SIZE_eq push_bit_eq_mult)
  have "(word_of_int (push_bit (nat k) 1) :: addr) = 2 ^ (nat (k - MIN_ORDER) + 12)"
    by (simp only: n [symmetric]) simp
  also have "\<dots> = push_bit 12 (word_of_nat (2 ^ nat (k - MIN_ORDER)))"
    by (simp only: power_add push_bit_eq_mult of_nat_power of_nat_numeral)
  finally have b: "(word_of_int (push_bit (nat k) 1) :: addr)
      = push_bit 12 (word_of_nat (2 ^ nat (k - MIN_ORDER)))" .
  have "(word_of_int (int p * PAGE_SIZE) :: addr) XOR word_of_int (push_bit (nat k) 1)
      = push_bit 12 (word_of_nat (p XOR 2 ^ nat (k - MIN_ORDER)))"
    by (simp only: a b of_nat_xor_eq push_bit_xor)
  also have "\<dots> = word_of_int (int (buddy_page p k) * PAGE_SIZE)"
    by (simp only: a buddy_page_def)
  finally show ?thesis
    by (simp only: BUDDY_ADDR_def PAGE_TO_ADDR_def add_diff_cancel)
qed

section \<open>Splitting\<close>

text \<open>What \<open>splitMemory\<close> does to a state with initialised descriptors: it returns, links
  the buddy of \<open>H\<close> of every order from \<open>T\<close> below \<open>K\<close> at the head of the list of that
  order, and writes that order into the buddy's descriptor.\<close>

lemma splitMemory_effect:
  assumes "pages_ok s" "H < n_pages" "MIN_ORDER \<le> T" "T \<le> K" "K \<le> MAX_ORDER"
  shows "\<exists>s'. splitMemory s H K T = Inr s' \<and> g_memory s' = g_memory s \<and> pages_ok s' \<and>
     (\<forall>j. free_area s' j = (if T \<le> j \<and> j < K then buddy_page H j # free_area s j else free_area s j)) \<and>
     (\<forall>j. T \<le> j \<and> j < K \<longrightarrow> order (g_pages s' ! buddy_page H j) = j) \<and>
     (\<forall>q. (\<forall>j. T \<le> j \<and> j < K \<longrightarrow> q \<noteq> buddy_page H j) \<longrightarrow> g_pages s' ! q = g_pages s ! q)"
  using assms
proof (induction "nat (K - T)" arbitrary: s K)
  case 0
  then have "K = T" by simp
  with "0.prems"(1) show ?case
    by (subst splitMemory.simps) simp
next
  case (Suc n)
  then have K: "T < K" "MIN_ORDER \<le> K - 1" "K - 1 < MAX_ORDER" "T \<le> K - 1" "n = nat (K - 1 - T)"
    by simp_all
  let ?b = "buddy_page H (K - 1)"
  let ?s1 = "list_add ?b (K - 1) (set_order ?b (K - 1) s)"
  have addrH: "address (g_pages s ! H) = PAGE_TO_ADDR (g_memory s) (int H)"
    using Suc.prems by (simp add: pages_ok_nth)
  have bp: "unat (ADDR_TO_PAGE (g_memory s) (BUDDY_ADDR (g_memory s) (address (g_pages s ! H)) (K - 1))) = ?b"
    unfolding addrH using Suc.prems(2) K(2,3) by (rule ADDR_TO_PAGE_BUDDY_ADDR)
  have b_lt: "?b < n_pages"
    using Suc.prems(2) K(2,3) by (rule buddy_page_less)
  have unfold: "splitMemory s H K T = splitMemory ?s1 H (K - 1) T"
    using K b_lt by (subst splitMemory.simps) (simp add: bp Let_def)
  have ok1: "pages_ok ?s1" using Suc.prems(1) by simp
  from Suc.hyps(1) [OF K(5) ok1 Suc.prems(2,3) K(4)] K(3)
  obtain s' where s': "splitMemory ?s1 H (K - 1) T = Inr s'" "g_memory s' = g_memory ?s1" "pages_ok s'"
    "\<forall>j. free_area s' j = (if T \<le> j \<and> j < K - 1 then buddy_page H j # free_area ?s1 j else free_area ?s1 j)"
    "\<forall>j. T \<le> j \<and> j < K - 1 \<longrightarrow> order (g_pages s' ! buddy_page H j) = j"
    "\<forall>q. (\<forall>j. T \<le> j \<and> j < K - 1 \<longrightarrow> q \<noteq> buddy_page H j) \<longrightarrow> g_pages s' ! q = g_pages ?s1 ! q"
    by auto
  have len: "?b < length (g_pages s)"
    using b_lt Suc.prems(1) by (simp add: pages_ok_length)
  have lists: "\<forall>j. free_area s' j = (if T \<le> j \<and> j < K then buddy_page H j # free_area s j else free_area s j)"
    using s'(4) K(1) by auto
  have distinct_b: "\<forall>j. T \<le> j \<and> j < K - 1 \<longrightarrow> ?b \<noteq> buddy_page H j"
    using buddy_page_inj [of H "K - 1"] K(2) Suc.prems(3) by force
  then have "g_pages s' ! ?b = g_pages ?s1 ! ?b"
    using s'(6) by blast
  then have ord_b: "order (g_pages s' ! ?b) = K - 1"
    using len by (simp add: set_order_order)
  have orders: "\<forall>j. T \<le> j \<and> j < K \<longrightarrow> order (g_pages s' ! buddy_page H j) = j"
  proof (intro allI impI)
    fix j assume j: "T \<le> j \<and> j < K"
    show "order (g_pages s' ! buddy_page H j) = j"
    proof (cases "j = K - 1")
      case True
      with ord_b show ?thesis by simp
    next
      case False
      with j s'(5) show ?thesis by simp
    qed
  qed
  have others: "\<forall>q. (\<forall>j. T \<le> j \<and> j < K \<longrightarrow> q \<noteq> buddy_page H j) \<longrightarrow> g_pages s' ! q = g_pages s ! q"
  proof (intro allI impI)
    fix q assume q: "\<forall>j. T \<le> j \<and> j < K \<longrightarrow> q \<noteq> buddy_page H j"
    then have "\<forall>j. T \<le> j \<and> j < K - 1 \<longrightarrow> q \<noteq> buddy_page H j" by simp
    with s'(6) have "g_pages s' ! q = g_pages ?s1 ! q" by blast
    moreover from q K have "q \<noteq> ?b" by simp
    ultimately show "g_pages s' ! q = g_pages s ! q"
      by (simp add: set_order_def)
  qed
  from unfold s'(1,2,3) lists orders others show ?case
    by simp
qed

text \<open>
  Claim C3. For a block of order \<open>K\<close> that starts at page \<open>H\<close> and a target order \<open>T \<le> K\<close>,
  \<open>splitMemory\<close> leaves the address of \<open>H\<close> unchanged and, for each order \<open>k\<close> with
  \<open>T < k \<le> K\<close>, links exactly one descriptor at the head of \<open>free_area[k - 1]\<close>: the
  buddy of \<open>H\<close> of order \<open>k - 1\<close>, which is the right half (it starts \<open>2 ^ (k - 1)\<close> bytes
  after \<open>H\<close>), whose address is the offset of \<open>H\<close> XOR \<open>2 ^ (k - 1)\<close>, and whose descriptor
  gets the order \<open>k - 1\<close>. The other lists are unchanged.
\<close>

theorem splitMemory_right_halves:
  assumes "pages_ok s" "H < n_pages" "aligned H K"
    and "MIN_ORDER \<le> T" "T \<le> K" "K \<le> MAX_ORDER"
  shows "\<exists>s'. splitMemory s H K T = Inr s' \<and>
     address (g_pages s' ! H) = address (g_pages s ! H) \<and>
     (\<forall>k. T < k \<and> k \<le> K \<longrightarrow>
        free_area s' (k - 1) = buddy_page H (k - 1) # free_area s (k - 1) \<and>
        buddy_page H (k - 1) = H + 2 ^ nat (k - 1 - MIN_ORDER) \<and>
        order (g_pages s' ! buddy_page H (k - 1)) = k - 1 \<and>
        address (g_pages s' ! buddy_page H (k - 1)) =
          ((address (g_pages s ! H) - g_memory s) XOR 2 ^ nat (k - 1)) + g_memory s) \<and>
     (\<forall>j. j < T \<or> K \<le> j \<longrightarrow> free_area s' j = free_area s j)"
proof -
  from splitMemory_effect [OF assms(1,2,4,5,6)]
  obtain s' where s': "splitMemory s H K T = Inr s'" "g_memory s' = g_memory s" "pages_ok s'"
    "\<forall>j. free_area s' j = (if T \<le> j \<and> j < K then buddy_page H j # free_area s j else free_area s j)"
    "\<forall>j. T \<le> j \<and> j < K \<longrightarrow> order (g_pages s' ! buddy_page H j) = j"
    by blast
  have addrH: "address (g_pages s' ! H) = address (g_pages s ! H)"
    using s'(2,3) assms(1,2) by (simp add: pages_ok_nth)
  have each: "free_area s' (k - 1) = buddy_page H (k - 1) # free_area s (k - 1) \<and>
        buddy_page H (k - 1) = H + 2 ^ nat (k - 1 - MIN_ORDER) \<and>
        order (g_pages s' ! buddy_page H (k - 1)) = k - 1 \<and>
        address (g_pages s' ! buddy_page H (k - 1)) =
          ((address (g_pages s ! H) - g_memory s) XOR 2 ^ nat (k - 1)) + g_memory s"
    if k: "T < k \<and> k \<le> K" for k
  proof -
    from k assms have r: "MIN_ORDER \<le> k - 1" "k - 1 < MAX_ORDER" "T \<le> k - 1 \<and> k - 1 < K"
      by simp_all
    from k have "k - 1 + 1 \<le> K" by simp
    with assms(3) have "aligned H (k - 1 + 1)"
      by (rule aligned_down)
    then have right: "buddy_page H (k - 1) = H + 2 ^ nat (k - 1 - MIN_ORDER)"
      using r(1) by (rule buddy_page_right)
    have "buddy_page H (k - 1) < n_pages"
      using assms(2) r(1,2) by (rule buddy_page_less)
    then have "address (g_pages s' ! buddy_page H (k - 1))
        = PAGE_TO_ADDR (g_memory s') (int (buddy_page H (k - 1)))"
      using s'(3) by (simp only: pages_ok_nth)
    also have "\<dots> = BUDDY_ADDR (g_memory s) (PAGE_TO_ADDR (g_memory s) (int H)) (k - 1)"
      using r(1) by (simp only: s'(2) BUDDY_ADDR_PAGE_TO_ADDR)
    also have "PAGE_TO_ADDR (g_memory s) (int H) = address (g_pages s ! H)"
      using assms(1,2) by (simp only: pages_ok_nth)
    also have "BUDDY_ADDR (g_memory s) (address (g_pages s ! H)) (k - 1)
        = ((address (g_pages s ! H) - g_memory s) XOR 2 ^ nat (k - 1)) + g_memory s"
      by (simp add: BUDDY_ADDR_def)
    finally have adr: "address (g_pages s' ! buddy_page H (k - 1)) =
          ((address (g_pages s ! H) - g_memory s) XOR 2 ^ nat (k - 1)) + g_memory s" .
    from s'(4) r(3) have lst: "free_area s' (k - 1) = buddy_page H (k - 1) # free_area s (k - 1)"
      by simp
    from s'(5) r(3) have ord: "order (g_pages s' ! buddy_page H (k - 1)) = k - 1"
      by blast
    from lst right ord adr show ?thesis
      by (intro conjI)
  qed
  have rest: "\<forall>j. j < T \<or> K \<le> j \<longrightarrow> free_area s' j = free_area s j"
    using s'(4) by auto
  from s'(1) addrH each rest show ?thesis
    by blast
qed

theorem splitMemory_right_halves_witness:
  "\<exists>s'. splitMemory (list_del_init 0 MAX_ORDER (buddy_init (zeroed 65536))) 0 MAX_ORDER MIN_ORDER = Inr s' \<and>
     address (g_pages s' ! 0) = 65536 \<and>
     free_area s' 19 = [128] \<and> order (g_pages s' ! 128) = 19 \<and>
     address (g_pages s' ! 128) = 65536 + 524288 \<and>
     free_area s' MAX_ORDER = []"
proof -
  let ?s = "list_del_init 0 MAX_ORDER (buddy_init (zeroed 65536))"
  have a: "pages_ok ?s" by (simp add: pages_ok_buddy_init)
  have b: "(0::nat) < n_pages" by (simp add: n_pages_eq)
  have c: "aligned 0 MAX_ORDER" by (simp add: aligned_def)
  have d: "MIN_ORDER \<le> MIN_ORDER" "MIN_ORDER \<le> MAX_ORDER" "MAX_ORDER \<le> MAX_ORDER"
    by (simp_all add: MIN_ORDER_def MAX_ORDER_def)
  have e: "MIN_ORDER < MAX_ORDER \<and> MAX_ORDER \<le> MAX_ORDER" "MAX_ORDER - 1 = 19"
    "MAX_ORDER < MIN_ORDER \<or> MAX_ORDER \<le> MAX_ORDER"
    by (simp_all add: MIN_ORDER_def MAX_ORDER_def)
  have f: "address (g_pages ?s ! 0) = 65536" "g_memory ?s = 65536"
    "free_area ?s 19 = []" "free_area ?s MAX_ORDER = []"
    using b by (simp_all add: buddy_init_nth buddy_init_fields PAGE_TO_ADDR_def zeroed_def MAX_ORDER_def MIN_ORDER_def)
  have g: "(0::nat) + 2 ^ nat (19 - MIN_ORDER) = 128" "((65536 - 65536 :: addr) XOR 2 ^ nat 19) + 65536 = 65536 + 524288"
    by (simp_all add: MIN_ORDER_def)
  from splitMemory_right_halves [OF a b c d]
  obtain s' where s': "splitMemory ?s 0 MAX_ORDER MIN_ORDER = Inr s'"
    "address (g_pages s' ! 0) = address (g_pages ?s ! 0)"
    "\<forall>k. MIN_ORDER < k \<and> k \<le> MAX_ORDER \<longrightarrow>
        free_area s' (k - 1) = buddy_page 0 (k - 1) # free_area ?s (k - 1) \<and>
        buddy_page 0 (k - 1) = 0 + 2 ^ nat (k - 1 - MIN_ORDER) \<and>
        order (g_pages s' ! buddy_page 0 (k - 1)) = k - 1 \<and>
        address (g_pages s' ! buddy_page 0 (k - 1)) =
          ((address (g_pages ?s ! 0) - g_memory ?s) XOR 2 ^ nat (k - 1)) + g_memory ?s"
    "\<forall>j. j < MIN_ORDER \<or> MAX_ORDER \<le> j \<longrightarrow> free_area s' j = free_area ?s j"
    by blast
  from s'(3) e(1) have "free_area s' (MAX_ORDER - 1) = buddy_page 0 (MAX_ORDER - 1) # free_area ?s (MAX_ORDER - 1) \<and>
        buddy_page 0 (MAX_ORDER - 1) = 0 + 2 ^ nat (MAX_ORDER - 1 - MIN_ORDER) \<and>
        order (g_pages s' ! buddy_page 0 (MAX_ORDER - 1)) = MAX_ORDER - 1 \<and>
        address (g_pages s' ! buddy_page 0 (MAX_ORDER - 1)) =
          ((address (g_pages ?s ! 0) - g_memory ?s) XOR 2 ^ nat (MAX_ORDER - 1)) + g_memory ?s"
    by blast
  then have "free_area s' 19 = [128] \<and> order (g_pages s' ! 128) = 19 \<and>
     address (g_pages s' ! 128) = 65536 + 524288"
    unfolding e(2) f g by auto
  moreover from s'(4) e(3) f(4) have "free_area s' MAX_ORDER = []" by simp
  ultimately show ?thesis
    using s'(1,2) f(1) by simp
qed

section \<open>Allocation\<close>

lemma determineOrder_eqI:
  assumes "MIN_ORDER \<le> d" "d \<le> MAX_ORDER" "sz \<le> 2 ^ nat d"
    and "d = MIN_ORDER \<or> 2 ^ nat (d - 1) < sz"
  shows "determineOrder sz = d"
proof -
  have m0: "(0::int) \<le> MIN_ORDER" by (simp add: MIN_ORDER_def)
  from determineOrder_loop_result [OF m0, of sz]
  consider (none) "\<forall>k. MIN_ORDER \<le> k \<and> k \<le> MAX_ORDER \<longrightarrow> 2 ^ nat k < sz"
    | (some) "MIN_ORDER \<le> determineOrder sz" "sz \<le> 2 ^ nat (determineOrder sz)"
        "\<forall>k. MIN_ORDER \<le> k \<and> k < determineOrder sz \<longrightarrow> 2 ^ nat k < sz"
    unfolding determineOrder_def by blast
  then show ?thesis
  proof cases
    case none
    with assms(1,2) have "2 ^ nat d < sz" by blast
    with assms(3) show ?thesis by simp
  next
    case some
    have "\<not> d < determineOrder sz"
      using some(3) assms(1,3) by force
    moreover have "\<not> determineOrder sz < d"
    proof
      assume lt: "determineOrder sz < d"
      with some(1) assms(4) have big: "2 ^ nat (d - 1) < sz" by auto
      from lt some(1) m0 have "(2::int) ^ nat (determineOrder sz) \<le> 2 ^ nat (d - 1)"
        by (intro pow2_mono_int) auto
      with some(2) big show False by simp
    qed
    ultimately show ?thesis by simp
  qed
qed

lemma buddy_alloc_loop_first:
  assumes "i \<le> k" "k \<le> MAX_ORDER" "\<forall>j. i \<le> j \<and> j < k \<longrightarrow> free_area s j = []"
    and "free_area s k = H # rest"
  shows "buddy_alloc_loop s i T =
     (case splitMemory (list_del_init H k s) H k T of
        Inl e \<Rightarrow> Inl e
      | Inr s' \<Rightarrow> Inr (set_order H T s', Some (address (g_pages (set_order H T s') ! H))))"
  using assms
proof (induction "nat (k - i)" arbitrary: i)
  case 0
  then have "i = k" by simp
  with "0.prems" show ?case
    by (subst buddy_alloc_loop.simps) simp
next
  case (Suc n)
  then have i: "i < k" "i \<le> MAX_ORDER" "free_area s i = []" by simp_all
  from Suc.prems have "\<forall>j. i + 1 \<le> j \<and> j < k \<longrightarrow> free_area s j = []" by simp
  moreover from Suc.hyps(2) have "n = nat (k - (i + 1))" by simp
  moreover from i have "i + 1 \<le> k" by simp
  ultimately have "buddy_alloc_loop s (i + 1) T =
     (case splitMemory (list_del_init H k s) H k T of
        Inl e \<Rightarrow> Inl e
      | Inr s' \<Rightarrow> Inr (set_order H T s', Some (address (g_pages (set_order H T s') ! H))))"
    using Suc.prems(2,4) by (intro Suc.hyps(1))
  with i show ?case
    by (subst buddy_alloc_loop.simps) simp
qed

lemma buddy_alloc_effect:
  assumes "pages_ok s" "H < n_pages"
    and "determineOrder sz = T" "T \<noteq> - 1" "T \<le> k" "k \<le> MAX_ORDER"
    and "free_area s k = H # rest" "\<forall>j. T \<le> j \<and> j < k \<longrightarrow> free_area s j = []"
  shows "\<exists>s1 s'. splitMemory (list_del_init H k s) H k T = Inr s1 \<and> s' = set_order H T s1 \<and>
     buddy_alloc s sz = Inr (s', Some (address (g_pages s ! H))) \<and>
     free_area s' k = rest \<and>
     (\<forall>j. T \<le> j \<and> j < k \<longrightarrow> free_area s' j = [buddy_page H j]) \<and>
     (\<forall>j. j < T \<or> k < j \<longrightarrow> free_area s' j = free_area s j) \<and>
     order (g_pages s' ! H) = T \<and>
     address (g_pages s' ! H) = address (g_pages s ! H)"
proof -
  let ?s0 = "list_del_init H k s"
  from determineOrder_cases [of sz] assms(3,4) have T: "MIN_ORDER \<le> T" by auto
  have ok0: "pages_ok ?s0" using assms(1) by simp
  from splitMemory_effect [OF ok0 assms(2) T assms(5,6)]
  obtain s1 where s1: "splitMemory ?s0 H k T = Inr s1" "g_memory s1 = g_memory ?s0" "pages_ok s1"
    "\<forall>j. free_area s1 j = (if T \<le> j \<and> j < k then buddy_page H j # free_area ?s0 j else free_area ?s0 j)"
    by blast
  let ?s' = "set_order H T s1"
  have len: "H < length (g_pages s1)"
    using s1(3) assms(2) by (simp add: pages_ok_length)
  have adr: "address (g_pages ?s' ! H) = address (g_pages s ! H)"
    using s1(2,3) assms(1,2) by (simp add: pages_ok_nth)
  have "buddy_alloc s sz = buddy_alloc_loop s T T"
    using assms(3,4) by (simp add: buddy_alloc_def)
  also have "\<dots> = Inr (?s', Some (address (g_pages ?s' ! H)))"
    by (simp only: buddy_alloc_loop_first [OF assms(5,6,8,7)] s1(1) sum.case)
  finally have res: "buddy_alloc s sz = Inr (?s', Some (address (g_pages s ! H)))"
    by (simp only: adr)
  have lk: "free_area ?s' k = rest"
    using s1(4) assms(7) by simp
  have lsplit: "\<forall>j. T \<le> j \<and> j < k \<longrightarrow> free_area ?s' j = [buddy_page H j]"
    using s1(4) assms(8) by simp
  have lrest: "\<forall>j. j < T \<or> k < j \<longrightarrow> free_area ?s' j = free_area s j"
    using s1(4) assms(5) by auto
  have ord: "order (g_pages ?s' ! H) = T"
    using len by (simp add: set_order_order)
  from s1(1) res lk lsplit lrest ord adr show ?thesis
    by blast
qed

lemma buddy_alloc_loop_cases:
  "(\<forall>k. i \<le> k \<and> k \<le> MAX_ORDER \<longrightarrow> free_area s k = []) \<or>
   (\<exists>k H rest. i \<le> k \<and> k \<le> MAX_ORDER \<and> free_area s k = H # rest \<and>
      (\<forall>j. i \<le> j \<and> j < k \<longrightarrow> free_area s j = []))"
proof (induction "nat (MAX_ORDER + 1 - i)" arbitrary: i)
  case 0
  then have "\<forall>k. i \<le> k \<and> k \<le> MAX_ORDER \<longrightarrow> free_area s k = []" by auto
  then show ?case ..
next
  case (Suc n)
  then have i: "i \<le> MAX_ORDER" "n = nat (MAX_ORDER + 1 - (i + 1))" by simp_all
  show ?case
  proof (cases "free_area s i")
    case (Cons H rest)
    with i(1) have "i \<le> i \<and> i \<le> MAX_ORDER \<and> free_area s i = H # rest \<and>
      (\<forall>j. i \<le> j \<and> j < i \<longrightarrow> free_area s j = [])" by auto
    then show ?thesis by blast
  next
    case Nil
    have step: "\<And>j. i \<le> j \<Longrightarrow> j = i \<or> i + 1 \<le> j" by arith
    from Suc.hyps(1) [OF i(2)] show ?thesis
    proof
      assume "\<forall>k. i + 1 \<le> k \<and> k \<le> MAX_ORDER \<longrightarrow> free_area s k = []"
      with Nil step have "\<forall>k. i \<le> k \<and> k \<le> MAX_ORDER \<longrightarrow> free_area s k = []" by blast
      then show ?thesis ..
    next
      assume "\<exists>k H rest. i + 1 \<le> k \<and> k \<le> MAX_ORDER \<and> free_area s k = H # rest \<and>
        (\<forall>j. i + 1 \<le> j \<and> j < k \<longrightarrow> free_area s j = [])"
      then obtain k H rest where k: "i + 1 \<le> k" "k \<le> MAX_ORDER" "free_area s k = H # rest"
        "\<forall>j. i + 1 \<le> j \<and> j < k \<longrightarrow> free_area s j = []" by blast
      with Nil step have "\<forall>j. i \<le> j \<and> j < k \<longrightarrow> free_area s j = []" by blast
      with k have "i \<le> k \<and> k \<le> MAX_ORDER \<and> free_area s k = H # rest \<and>
        (\<forall>j. i \<le> j \<and> j < k \<longrightarrow> free_area s j = [])" by simp
      then show ?thesis by blast
    qed
  qed
qed

lemma lists_okD:
  "lists_ok s \<Longrightarrow> MIN_ORDER \<le> k \<Longrightarrow> k \<le> MAX_ORDER \<Longrightarrow> p \<in> set (free_area s k) \<Longrightarrow>
   p < n_pages \<and> aligned p k"
  by (simp add: lists_ok_def)

text \<open>
  Claim C1. When \<open>determineOrder sz\<close> is an order \<open>T\<close> and some list of an order from \<open>T\<close>
  up to \<open>MAX_ORDER\<close> is nonempty, \<open>buddy_alloc\<close> takes the smallest such order \<open>k\<close>,
  unlinks the first descriptor \<open>H\<close> of \<open>free_area[k]\<close>, runs \<open>splitMemory\<close> from \<open>k\<close> down
  to \<open>T\<close> (which leaves one right half on each list from \<open>T\<close> below \<open>k\<close>), writes the
  order \<open>T\<close> into \<open>H\<close> and returns the address of \<open>H\<close>, which is the address \<open>H\<close> had
  before.
\<close>

theorem buddy_alloc_smallest_block:
  assumes "pages_ok s" "lists_ok s"
    and "determineOrder sz = T" "T \<noteq> - 1"
    and "\<exists>k. T \<le> k \<and> k \<le> MAX_ORDER \<and> free_area s k \<noteq> []"
  shows "\<exists>k H rest s1 s'. T \<le> k \<and> k \<le> MAX_ORDER \<and> free_area s k = H # rest \<and>
     (\<forall>j. T \<le> j \<and> j < k \<longrightarrow> free_area s j = []) \<and>
     splitMemory (list_del_init H k s) H k T = Inr s1 \<and> s' = set_order H T s1 \<and>
     buddy_alloc s sz = Inr (s', Some (address (g_pages s ! H))) \<and>
     free_area s' k = rest \<and>
     (\<forall>j. T \<le> j \<and> j < k \<longrightarrow> free_area s' j = [buddy_page H j]) \<and>
     (\<forall>j. j < T \<or> k < j \<longrightarrow> free_area s' j = free_area s j) \<and>
     order (g_pages s' ! H) = T \<and>
     address (g_pages s' ! H) = address (g_pages s ! H)"
proof -
  from determineOrder_cases [of sz] assms(3,4) have T: "MIN_ORDER \<le> T" by auto
  from buddy_alloc_loop_cases [of T s] assms(5)
  obtain k H rest where k: "T \<le> k" "k \<le> MAX_ORDER" "free_area s k = H # rest"
    "\<forall>j. T \<le> j \<and> j < k \<longrightarrow> free_area s j = []"
    by blast
  from k(3) have "H \<in> set (free_area s k)" by simp
  moreover from T k(1) have "MIN_ORDER \<le> k" by simp
  ultimately have H: "H < n_pages" using assms(2) k(2) by (auto dest: lists_okD)
  from buddy_alloc_effect [OF assms(1) H assms(3,4) k] k show ?thesis
    by blast
qed

theorem buddy_alloc_smallest_block_witness:
  "\<exists>s'. buddy_alloc (buddy_init (zeroed 65536)) 5000 = Inr (s', Some 65536) \<and>
     free_area s' MAX_ORDER = [] \<and> free_area s' 13 = [buddy_page 0 13] \<and>
     order (g_pages s' ! 0) = 13"
proof -
  define s where "s = buddy_init (zeroed 65536)"
  have fa: "free_area s j = (if j = MAX_ORDER then [0] else [])" for j
    by (simp add: s_def buddy_init_fields zeroed_def)
  have a: "pages_ok s" unfolding s_def by (rule pages_ok_buddy_init)
  have b: "lists_ok s"
    by (auto simp: lists_ok_def fa n_pages_eq aligned_def split: if_splits)
  have T: "determineOrder 5000 = 13"
    by (rule determineOrder_eqI) (simp_all add: MIN_ORDER_def MAX_ORDER_def)
  have c: "(13::int) \<noteq> - 1" by simp
  have "13 \<le> MAX_ORDER \<and> MAX_ORDER \<le> MAX_ORDER \<and> free_area s MAX_ORDER \<noteq> []"
    by (simp add: fa MAX_ORDER_def)
  then have d: "\<exists>k. 13 \<le> k \<and> k \<le> MAX_ORDER \<and> free_area s k \<noteq> []" ..
  have e: "address (g_pages s ! 0) = 65536"
    by (simp add: s_def buddy_init_nth PAGE_TO_ADDR_def zeroed_def n_pages_eq)
  have f: "(13::int) \<le> 13 \<and> 13 < MAX_ORDER" by (simp add: MAX_ORDER_def)
  from buddy_alloc_smallest_block [OF a b T c d]
  obtain k H rest s' where s': "free_area s k = H # rest"
    "buddy_alloc s 5000 = Inr (s', Some (address (g_pages s ! H)))"
    "free_area s' k = rest" "\<forall>j. 13 \<le> j \<and> j < k \<longrightarrow> free_area s' j = [buddy_page H j]"
    "order (g_pages s' ! H) = 13"
    by blast
  from s'(1) have k: "k = MAX_ORDER" "H = 0" "rest = []"
    by (simp_all add: fa split: if_splits)
  from s'(4) f have "free_area s' 13 = [buddy_page 0 13]" unfolding k by blast
  with s'(2,3,5) e have "\<exists>s'. buddy_alloc s 5000 = Inr (s', Some 65536) \<and>
     free_area s' MAX_ORDER = [] \<and> free_area s' 13 = [buddy_page 0 13] \<and>
     order (g_pages s' ! 0) = 13"
    unfolding k by auto
  then show ?thesis by (simp only: s_def)
qed

section \<open>Freeing\<close>

lemma coalesce_spec_bounds:
  "coalesce_spec fa h k = (fa', h', k') \<Longrightarrow> h < n_pages \<Longrightarrow> MIN_ORDER \<le> k \<Longrightarrow> k \<le> MAX_ORDER \<Longrightarrow>
   h' < n_pages \<and> k \<le> k' \<and> k' \<le> MAX_ORDER"
proof (induction fa h k rule: coalesce_spec.induct)
  case (1 fa h k)
  show ?case
  proof (cases "k < MAX_ORDER \<and> buddy_page h k \<in> set (fa k)")
    case False
    with "1.prems" show ?thesis
      by (subst (asm) coalesce_spec.simps) (auto simp: Let_def split: if_splits)
  next
    case True
    let ?b = "buddy_page h k"
    let ?h = "if ?b < h then ?b else h"
    from True "1.prems"(1)
    have rec: "coalesce_spec (fa(k := remove1 ?b (fa k))) ?h (k + 1) = (fa', h', k')"
      by (subst (asm) coalesce_spec.simps) (simp add: Let_def)
    have "?b < n_pages"
      using "1.prems"(2,3) True by (intro buddy_page_less) simp_all
    with "1.prems"(2) have h: "?h < n_pages" by simp
    from True "1.prems"(3) have k: "MIN_ORDER \<le> k + 1" "k + 1 \<le> MAX_ORDER" by simp_all
    from True have "k < MAX_ORDER" "?b \<in> set (fa k)" by simp_all
    from "1.IH" [OF this(1) refl this(2) rec h k]
    show ?thesis by simp
  qed
qed

text \<open>On a state with initialised descriptors the coalescing loop of the source computes
  the spec's loop on the free lists, and changes nothing else.\<close>

lemma buddy_free_loop_coalesce:
  "pages_ok s \<Longrightarrow> page < n_pages \<Longrightarrow> MIN_ORDER \<le> i \<Longrightarrow> i \<le> MAX_ORDER \<Longrightarrow>
   buddy_free_loop s page i =
     (case coalesce_spec (free_area s) page i of (fa, h, k) \<Rightarrow> Inr (s\<lparr>free_area := fa\<rparr>, h, k))"
proof (induction s page i rule: buddy_free_loop.induct)
  case (1 s page i)
  let ?b = "buddy_page page i"
  show ?case
  proof (cases "i < MAX_ORDER")
    case False
    then show ?thesis
      by (subst buddy_free_loop.simps, subst coalesce_spec.simps) simp
  next
    case True
    have bp: "unat (ADDR_TO_PAGE (g_memory s)
        (BUDDY_ADDR (g_memory s) (address (g_pages s ! page)) i)) = ?b"
      using "1.prems" True by (simp add: pages_ok_nth ADDR_TO_PAGE_BUDDY_ADDR)
    have b_lt: "?b < n_pages"
      using "1.prems"(2,3) True by (rule buddy_page_less)
    show ?thesis
    proof (cases "?b \<in> set (free_area s i)")
      case False
      with True "1.prems"(3) b_lt show ?thesis
        by (subst buddy_free_loop.simps, subst coalesce_spec.simps) (simp add: bp Let_def)
    next
      case mem: True
      let ?s1 = "list_del_init ?b i s"
      let ?h = "if ?b < page then ?b else page"
      have nlow: "\<not> i < MIN_ORDER" using "1.prems"(3) by simp
      have nbig: "\<not> n_pages \<le> ?b" using b_lt by simp
      have "buddy_free_loop ?s1 ?h (i + 1) =
          (case coalesce_spec (free_area ?s1) ?h (i + 1) of (fa, h, k) \<Rightarrow> Inr (?s1\<lparr>free_area := fa\<rparr>, h, k))"
      proof (rule "1.IH" [OF True nlow bp [symmetric] nbig])
        show "?b \<in> set (free_area s i)" by (rule mem)
        show "pages_ok ?s1" using "1.prems"(1) by simp
        show "?h < n_pages" using b_lt "1.prems"(2) by simp
        show "MIN_ORDER \<le> i + 1" using "1.prems"(3) by simp
        show "i + 1 \<le> MAX_ORDER" using True by simp
      qed
      moreover have "?s1\<lparr>free_area := fa\<rparr> = s\<lparr>free_area := fa\<rparr>" for fa
        by (simp add: list_del_init_def)
      moreover have "buddy_free_loop s page i = buddy_free_loop ?s1 ?h (i + 1)"
        using True nlow nbig mem by (subst buddy_free_loop.simps) (simp add: bp Let_def)
      moreover have "coalesce_spec (free_area s) page i = coalesce_spec (free_area ?s1) ?h (i + 1)"
        using True mem by (subst coalesce_spec.simps) (simp add: Let_def)
      ultimately show ?thesis by simp
    qed
  qed
qed

lemma buddy_free_effect:
  assumes "pages_ok s" "unat (ADDR_TO_PAGE (g_memory s) a) = H" "H < n_pages"
    and "order (g_pages s ! H) = k0" "MIN_ORDER \<le> k0" "k0 \<le> MAX_ORDER"
    and "coalesce_spec (free_area s) H k0 = (fa, h, k)"
  shows "buddy_free s a =
     Inr (s\<lparr>g_pages := (g_pages s)[h := (g_pages s ! h)\<lparr>order := k\<rparr>],
            free_area := fa(k := h # fa k)\<rparr>)"
proof -
  have "buddy_free_loop s H k0 = Inr (s\<lparr>free_area := fa\<rparr>, h, k)"
    using assms by (simp add: buddy_free_loop_coalesce)
  then show ?thesis
    using assms(2-6) by (simp add: buddy_free_def Let_def list_add_def set_order_def)
qed

text \<open>
  Claim C2. For \<open>buddy_free\<close> on an address whose page \<open>H\<close> has a stored order \<open>k0\<close>
  between \<open>MIN_ORDER\<close> and \<open>MAX_ORDER\<close>: the free lists it leaves are those of the spec's
  loop (\<open>coalesce_spec\<close>: while \<open>k < MAX_ORDER\<close>, search \<open>free[k]\<close> for the buddy page of the
  head; stop if absent; otherwise remove it, take the lower of the two as head, increment
  \<open>k\<close>), followed by the insertion of the resulting head \<open>h\<close> at the head of \<open>free[k]\<close> for
  the final \<open>k\<close>; the descriptor of \<open>h\<close> gets the order \<open>k\<close>; nothing else changes. With
  \<open>k0 = MAX_ORDER\<close> the loop does nothing and \<open>H\<close> itself is inserted in \<open>free[MAX_ORDER]\<close>.
\<close>

theorem buddy_free_coalesces:
  assumes "pages_ok s" "unat (ADDR_TO_PAGE (g_memory s) a) = H" "H < n_pages"
    and "order (g_pages s ! H) = k0" "MIN_ORDER \<le> k0" "k0 \<le> MAX_ORDER"
    and "coalesce_spec (free_area s) H k0 = (fa, h, k)"
  shows "buddy_free s a =
     Inr (s\<lparr>g_pages := (g_pages s)[h := (g_pages s ! h)\<lparr>order := k\<rparr>],
            free_area := fa(k := h # fa k)\<rparr>) \<and>
     h < n_pages \<and> k0 \<le> k \<and> k \<le> MAX_ORDER \<and>
     (k0 = MAX_ORDER \<longrightarrow> fa = free_area s \<and> h = H \<and> k = MAX_ORDER)"
proof -
  have "k0 = MAX_ORDER \<longrightarrow> fa = free_area s \<and> h = H \<and> k = MAX_ORDER"
    using assms(7) by (subst (asm) coalesce_spec.simps) auto
  with buddy_free_effect [OF assms] coalesce_spec_bounds [OF assms(7,3,5,6)]
  show ?thesis by simp
qed

theorem buddy_free_coalesces_witness:
  "\<exists>s'. buddy_free (set_order 0 19 (list_add 128 19 (set_order 128 19
             (list_del_init 0 MAX_ORDER (buddy_init (zeroed 65536)))))) 65536 = Inr s' \<and>
     free_area s' 19 = [] \<and> free_area s' MAX_ORDER = [0] \<and> order (g_pages s' ! 0) = MAX_ORDER"
proof -
  define s where "s = set_order 0 19 (list_add 128 19 (set_order 128 19
             (list_del_init 0 MAX_ORDER (buddy_init (zeroed 65536)))))"
  define fa where "fa = (free_area s)(19 := [])"
  have n: "(0::nat) < n_pages" "(128::nat) < n_pages" by (simp_all add: n_pages_eq)
  have a: "pages_ok s" by (simp add: s_def pages_ok_buddy_init)
  have b: "unat (ADDR_TO_PAGE (g_memory s) 65536) = 0"
    by (simp add: s_def ADDR_TO_PAGE_def buddy_init_fields zeroed_def)
  have len: "length (g_pages s) = n_pages" using a by (rule pages_ok_length)
  have c: "order (g_pages s ! 0) = 19"
    using n by (simp add: s_def set_order_order buddy_init_fields)
  have d: "MIN_ORDER \<le> 19" "19 \<le> MAX_ORDER" by (simp_all add: MIN_ORDER_def MAX_ORDER_def)
  have l19: "free_area s 19 = [128]" and l20: "free_area s MAX_ORDER = []"
    by (simp_all add: s_def buddy_init_fields zeroed_def MIN_ORDER_def MAX_ORDER_def)
  have bp: "buddy_page 0 19 = 128" by (simp add: buddy_page_def MIN_ORDER_def)
  have "coalesce_spec (free_area s) 0 19 = coalesce_spec fa 0 (19 + 1)"
    by (subst coalesce_spec.simps) (simp add: bp l19 MAX_ORDER_def fa_def)
  also have "\<dots> = (fa, 0, MAX_ORDER)"
    by (subst coalesce_spec.simps) (simp add: MAX_ORDER_def)
  finally have e: "coalesce_spec (free_area s) 0 19 = (fa, 0, MAX_ORDER)" .
  from buddy_free_coalesces [OF a b n(1) c d e]
  have "buddy_free s 65536 =
     Inr (s\<lparr>g_pages := (g_pages s)[0 := (g_pages s ! 0)\<lparr>order := MAX_ORDER\<rparr>],
            free_area := fa(MAX_ORDER := 0 # fa MAX_ORDER)\<rparr>)"
    by blast
  moreover have "fa MAX_ORDER = []" "fa 19 = []"
    using l20 by (simp_all add: fa_def MAX_ORDER_def)
  moreover have "(19::int) \<noteq> MAX_ORDER" by (simp add: MAX_ORDER_def)
  ultimately have "\<exists>s'. buddy_free s 65536 = Inr s' \<and>
     free_area s' 19 = [] \<and> free_area s' MAX_ORDER = [0] \<and> order (g_pages s' ! 0) = MAX_ORDER"
    using n(1) len by simp
  then show ?thesis by (simp only: s_def)
qed

section \<open>The check of the stored order\<close>

lemma buddy_free_invalid_order:
  assumes "unat (ADDR_TO_PAGE (g_memory s) a) = H" "H < n_pages"
    and "order (g_pages s ! H) < MIN_ORDER \<or> MAX_ORDER < order (g_pages s ! H)"
  shows "buddy_free s a = Inl (InvalidOrder (order (g_pages s ! H)))"
  using assms by (simp add: buddy_free_def Let_def)

lemma buddy_free_loop_no_diagnostic:
  "buddy_free_loop s page i \<noteq> Inl (InvalidOrder k)"
proof (induction s page i rule: buddy_free_loop.induct)
  case (1 s page i)
  show ?case
    by (subst buddy_free_loop.simps) (use "1.IH" in \<open>auto simp: Let_def\<close>)
qed

lemma buddy_free2_no_diagnostic: "buddy_free2 s a \<noteq> Inl (InvalidOrder k)"
  using buddy_free_loop_no_diagnostic
  by (auto simp: buddy_free2_def Let_def split: sum.splits prod.splits)

text \<open>
  Claim C9, at the call \<open>buddy_free(g_memory + 4096)\<close> right after \<open>buddy_init\<close>, where
  the descriptor of page 1 holds the order \<open>-1\<close>: \<open>buddy_free\<close> of \<open>src/buddy.c\<close> prints the
  diagnostic and spins, without a change to any list; \<open>buddy_free\<close> of
  \<open>src/buddy/buddy.c\<close> has no check, starts the loop with the counter \<open>-1\<close>, and on no
  input ever prints a diagnostic.
\<close>

theorem buddy_free2_misses_check:
  "buddy_free (buddy_init (zeroed 65536)) (65536 + 4096) = Inl (InvalidOrder (- 1)) \<and>
   buddy_free2 (buddy_init (zeroed 65536)) (65536 + 4096) = Inl Undefined \<and>
   (\<forall>s a k. buddy_free2 s a \<noteq> Inl (InvalidOrder k))"
proof -
  define s where "s = buddy_init (zeroed 65536)"
  define a :: addr where "a = 65536 + 4096"
  have n: "(1::nat) < n_pages" by (simp add: n_pages_eq)
  have pg: "unat (ADDR_TO_PAGE (g_memory s) a) = 1"
    by (simp add: s_def a_def ADDR_TO_PAGE_def buddy_init_fields zeroed_def PAGE_SIZE_eq)
  have ord: "order (g_pages s ! 1) = - 1"
    using n by (simp add: s_def buddy_init_nth)
  have "order (g_pages s ! 1) < MIN_ORDER \<or> MAX_ORDER < order (g_pages s ! 1)"
    by (simp only: ord) (simp add: MIN_ORDER_def)
  with pg n have "buddy_free s a = Inl (InvalidOrder (order (g_pages s ! 1)))"
    by (rule buddy_free_invalid_order)
  then have one: "buddy_free s a = Inl (InvalidOrder (- 1))"
    by (simp only: ord)
  have "buddy_free_loop s 1 (- 1) = Inl Undefined"
    by (subst buddy_free_loop.simps) (simp add: MIN_ORDER_def MAX_ORDER_def)
  then have two: "buddy_free2 s a = Inl Undefined"
    using n by (simp only: buddy_free2_def Let_def pg ord) simp
  from one two buddy_free2_no_diagnostic show ?thesis
    by (simp only: s_def a_def) blast
qed

section \<open>The two copies\<close>

lemma buddy_free_loop_counter:
  "buddy_free_loop s page i = Inr (s', h, k) \<Longrightarrow> i \<le> MAX_ORDER \<Longrightarrow> k \<le> MAX_ORDER"
proof (induction s page i rule: buddy_free_loop.induct)
  case (1 s page i)
  let ?b = "unat (ADDR_TO_PAGE (g_memory s) (BUDDY_ADDR (g_memory s) (address (g_pages s ! page)) i))"
  show ?case
  proof (cases "i < MAX_ORDER \<and> \<not> i < MIN_ORDER \<and> \<not> n_pages \<le> ?b \<and> ?b \<in> set (free_area s i)")
    case False
    with "1.prems" show ?thesis
      by (subst (asm) buddy_free_loop.simps) (auto simp: Let_def split: if_splits)
  next
    case True
    with "1.prems"(1)
    have "buddy_free_loop (list_del_init ?b i s) (if ?b < page then ?b else page) (i + 1) = Inr (s', h, k)"
      by (subst (asm) buddy_free_loop.simps) (simp add: Let_def)
    moreover from True have "i + 1 \<le> MAX_ORDER" by simp
    ultimately show ?thesis
      using True by (intro "1.IH" [OF _ _ refl]) simp_all
  qed
qed

lemma buddy_free2_eq: "stored_order_ok s a \<Longrightarrow> buddy_free2 s a = buddy_free s a"
  by (auto simp: stored_order_ok_def buddy_free2_def buddy_free_def Let_def
           split: sum.splits prod.splits dest: buddy_free_loop_counter)

lemma step2_eq: "call_ok s A c \<Longrightarrow> step2 s c = step s c"
  by (cases c) (simp_all add: buddy_free2_eq)

lemma alloc_all_after_init:
  "buddy_alloc (buddy_init (zeroed 65536)) 1048576 =
     Inr (set_order 0 MAX_ORDER (list_del_init 0 MAX_ORDER (buddy_init (zeroed 65536))), Some 65536)"
proof -
  define s where "s = buddy_init (zeroed 65536)"
  have T: "determineOrder 1048576 = MAX_ORDER"
    by (rule determineOrder_eqI) (simp_all add: MIN_ORDER_def MAX_ORDER_def)
  have n: "(0::nat) < n_pages" by (simp add: n_pages_eq)
  have l: "free_area s MAX_ORDER = 0 # []"
    by (simp add: s_def buddy_init_fields)
  have split: "splitMemory (list_del_init 0 MAX_ORDER s) 0 MAX_ORDER MAX_ORDER
      = Inr (list_del_init 0 MAX_ORDER s)"
    by (subst splitMemory.simps) simp
  have adr: "address (g_pages s ! 0) = 65536"
    using n by (simp add: s_def buddy_init_nth PAGE_TO_ADDR_def zeroed_def)
  have "buddy_alloc s 1048576 = buddy_alloc_loop s MAX_ORDER MAX_ORDER"
    by (simp add: buddy_alloc_def T MAX_ORDER_def)
  also have "\<dots> = Inr (set_order 0 MAX_ORDER (list_del_init 0 MAX_ORDER s), Some 65536)"
  proof -
    have e: "\<forall>j. MAX_ORDER \<le> j \<and> j < MAX_ORDER \<longrightarrow> free_area s j = []" by auto
    show ?thesis
      by (simp only: buddy_alloc_loop_first [OF order_refl order_refl e l] split sum.case
            set_order_address list_del_init_fields adr)
  qed
  finally show ?thesis by (simp only: s_def)
qed

text \<open>
  Claim C10. On every sequence of calls that satisfies the preconditions (each freed
  address is an outstanding allocation whose descriptor holds an order between
  \<open>MIN_ORDER\<close> and \<open>MAX_ORDER\<close>), the functions of \<open>src/buddy/buddy.c\<close> give the same
  replies and the same state after every call as those of \<open>src/buddy.c\<close>.
\<close>

theorem copies_agree:
  "calls_ok s A cs \<Longrightarrow> run2 s cs = run s cs"
proof (induction cs arbitrary: s A)
  case Nil
  show ?case by simp
next
  case (Cons c cs)
  then have c: "call_ok s A c" by simp
  then have eq: "step2 s c = step s c" by (rule step2_eq)
  show ?case
  proof (cases "step s c")
    case (Inl e)
    with eq show ?thesis by simp
  next
    case (Inr p)
    obtain s' r where p: "p = (s', r)" by (cases p)
    with Inr Cons.prems have "calls_ok s' (outstanding A c r) cs" by simp
    then have "run2 s' cs = run s' cs" by (rule Cons.IH)
    with eq Inr p show ?thesis by simp
  qed
qed

theorem copies_agree_witness:
  "run2 (zeroed 65536) [Init, Alloc 1048576, Free 65536, Alloc 5000]
   = run (zeroed 65536) [Init, Alloc 1048576, Free 65536, Alloc 5000]"
proof -
  define s where "s = set_order 0 MAX_ORDER (list_del_init 0 MAX_ORDER (buddy_init (zeroed 65536)))"
  have n: "(0::nat) < n_pages" by (simp add: n_pages_eq)
  have pg: "unat (ADDR_TO_PAGE (g_memory s) 65536) = 0"
    by (simp add: s_def ADDR_TO_PAGE_def buddy_init_fields zeroed_def)
  have ord: "order (g_pages s ! 0) = MAX_ORDER"
    using n by (simp add: s_def set_order_order buddy_init_fields)
  have ok: "stored_order_ok s 65536"
    unfolding stored_order_ok_def pg ord using n by (simp add: MIN_ORDER_def MAX_ORDER_def)
  have "calls_ok (zeroed 65536) {} [Init, Alloc 1048576, Free 65536, Alloc 5000]"
    using ok by (simp add: alloc_all_after_init s_def [symmetric] split: sum.splits prod.splits)
  then show ?thesis by (rule copies_agree)
qed

section \<open>Invariants of the reachable states\<close>

lemma aligned_0 [simp]: "aligned 0 k"
  by (simp add: aligned_def)

lemma allocator_inv_buddy_init: "allocator_inv (buddy_init s)"
proof -
  have pos: "0 < n_pages" by (simp add: n_pages_eq)
  have "lists_ok (buddy_init s)"
    using pos by (auto simp: lists_ok_def buddy_init_fields split: if_splits)
  moreover have "orders_ok (buddy_init s)"
    by (auto simp: orders_ok_def buddy_init_nth MIN_ORDER_def)
  moreover have "eager (free_area (buddy_init s))"
    by (simp add: eager_def buddy_init_fields)
  ultimately show ?thesis
    by (simp add: allocator_inv_def pages_ok_buddy_init)
qed

text \<open>A call of \<open>buddy_alloc\<close> that returns has either changed nothing and returned
  \<open>NULL\<close>, or taken the first block of the smallest nonempty list.\<close>

lemma buddy_alloc_cases:
  assumes "buddy_alloc s sz = Inr (s', r)"
  obtains (null) "r = None" "s' = s"
  | (block) T k H rest where "determineOrder sz = T" "MIN_ORDER \<le> T" "T \<le> k" "k \<le> MAX_ORDER"
      "free_area s k = H # rest" "\<forall>j. T \<le> j \<and> j < k \<longrightarrow> free_area s j = []"
proof (cases "determineOrder sz = - 1")
  case True
  with assms have "r = None" "s' = s" by (simp_all add: buddy_alloc_def)
  then show ?thesis by (rule null)
next
  case False
  with determineOrder_cases [of sz] have T: "MIN_ORDER \<le> determineOrder sz" by simp
  from False assms have loop: "buddy_alloc_loop s (determineOrder sz) (determineOrder sz) = Inr (s', r)"
    by (simp add: buddy_alloc_def Let_def)
  from buddy_alloc_loop_cases [of "determineOrder sz" s] show ?thesis
  proof
    assume "\<forall>k. determineOrder sz \<le> k \<and> k \<le> MAX_ORDER \<longrightarrow> free_area s k = []"
    then have "buddy_alloc_loop s (determineOrder sz) (determineOrder sz) = Inr (s, None)"
      by (rule buddy_alloc_loop_empty)
    with loop have "r = None" "s' = s" by simp_all
    then show ?thesis by (rule null)
  next
    assume "\<exists>k H rest. determineOrder sz \<le> k \<and> k \<le> MAX_ORDER \<and> free_area s k = H # rest \<and>
      (\<forall>j. determineOrder sz \<le> j \<and> j < k \<longrightarrow> free_area s j = [])"
    then obtain k H rest where "determineOrder sz \<le> k" "k \<le> MAX_ORDER" "free_area s k = H # rest"
      "\<forall>j. determineOrder sz \<le> j \<and> j < k \<longrightarrow> free_area s j = []" by blast
    with T show ?thesis by (intro block [OF refl])
  qed
qed

lemma eagerD:
  "eager fa \<Longrightarrow> MIN_ORDER \<le> k \<Longrightarrow> k < MAX_ORDER \<Longrightarrow> p \<in> set (fa k) \<Longrightarrow>
   buddy_page p k \<notin> set (fa k)"
  by (simp add: eager_def)

lemma allocator_inv_buddy_alloc:
  assumes "allocator_inv s" "buddy_alloc s sz = Inr (s', r)"
  shows "allocator_inv s'"
  using assms(2)
proof (cases rule: buddy_alloc_cases)
  case null
  with assms(1) show ?thesis by simp
next
  case (block T k H rest)
  from assms(1) have ok: "pages_ok s" and lists: "lists_ok s" and orders: "orders_ok s"
    and eag: "eager (free_area s)"
    by (simp_all add: allocator_inv_def)
  have Tk: "MIN_ORDER \<le> k" using block(2,3) by simp
  have "H \<in> set (free_area s k)" using block(5) by simp
  with lists Tk block(4) have H: "H < n_pages" "aligned H k"
    by (auto dest: lists_okD)
  let ?s0 = "list_del_init H k s"
  have ok0: "pages_ok ?s0" using ok by simp
  from splitMemory_effect [OF ok0 H(1) block(2,3,4)]
  obtain s1 where s1: "splitMemory ?s0 H k T = Inr s1" "g_memory s1 = g_memory ?s0" "pages_ok s1"
    "\<forall>j. free_area s1 j = (if T \<le> j \<and> j < k then buddy_page H j # free_area ?s0 j else free_area ?s0 j)"
    "\<forall>j. T \<le> j \<and> j < k \<longrightarrow> order (g_pages s1 ! buddy_page H j) = j"
    "\<forall>q. (\<forall>j. T \<le> j \<and> j < k \<longrightarrow> q \<noteq> buddy_page H j) \<longrightarrow> g_pages s1 ! q = g_pages ?s0 ! q"
    by blast
  have Tn: "T \<noteq> - 1" using block(2) by (simp add: MIN_ORDER_def)
  have "buddy_alloc s sz = buddy_alloc_loop s T T"
    using block(1) Tn by (simp add: buddy_alloc_def)
  also have "\<dots> = Inr (set_order H T s1, Some (address (g_pages (set_order H T s1) ! H)))"
    by (simp only: buddy_alloc_loop_first [OF block(3,4,6,5)] s1(1) sum.case)
  finally have s': "s' = set_order H T s1"
    using assms(2) by simp
  have len: "length (g_pages s1) = n_pages" using s1(3) by (rule pages_ok_length)
  have fa: "free_area s' j =
      (if T \<le> j \<and> j < k then [buddy_page H j] else if j = k then rest else free_area s j)" for j
    using s1(4) block(5,6) by (simp add: s')
  have bp: "buddy_page H j < n_pages \<and> aligned (buddy_page H j) j" if "T \<le> j" "j < k" for j
  proof -
    from that block(2,4) have j: "MIN_ORDER \<le> j" "j < MAX_ORDER" "j \<le> k" by simp_all
    from H(2) j(3) have "aligned H j" by (rule aligned_down)
    then have "aligned (buddy_page H j) j" by (rule aligned_buddy_page)
    moreover from H(1) j(1,2) have "buddy_page H j < n_pages" by (rule buddy_page_less)
    ultimately show ?thesis by simp
  qed
  have "pages_ok s'" using s1(3) by (simp add: s')
  moreover have "lists_ok s'"
    unfolding lists_ok_def
  proof (intro ballI)
    fix j p assume j: "j \<in> {MIN_ORDER..MAX_ORDER}" and p: "p \<in> set (free_area s' j)"
    show "p < n_pages \<and> aligned p j"
    proof (cases "T \<le> j \<and> j < k")
      case True
      with p fa bp show ?thesis by simp
    next
      case False
      with p fa block(5) have "p \<in> set (free_area s j)"
        by (auto split: if_splits)
      with lists j show ?thesis by (auto dest: lists_okD)
    qed
  qed
  moreover have "orders_ok s'"
    unfolding orders_ok_def
  proof (intro allI impI)
    fix q assume q: "q < n_pages"
      and r: "MIN_ORDER \<le> order (g_pages s' ! q) \<and> order (g_pages s' ! q) \<le> MAX_ORDER"
    show "aligned q (order (g_pages s' ! q))"
    proof (cases "q = H")
      case True
      then have "order (g_pages s' ! q) = T"
        using H(1) len by (simp add: s' set_order_order)
      moreover from H(2) block(3) have "aligned H T" by (rule aligned_down)
      ultimately show ?thesis using True by simp
    next
      case False
      then have o: "order (g_pages s' ! q) = order (g_pages s1 ! q)"
        using H(1) len by (simp add: s' set_order_order)
      show ?thesis
      proof (cases "\<exists>j. T \<le> j \<and> j < k \<and> q = buddy_page H j")
        case True
        then obtain j where j: "T \<le> j" "j < k" "q = buddy_page H j" by blast
        with s1(5) have "order (g_pages s1 ! q) = j" by simp
        with o j bp show ?thesis by simp
      next
        case False
        with s1(6) have "g_pages s1 ! q = g_pages s ! q" by auto
        with o r q orders show ?thesis by (simp add: orders_ok_def)
      qed
    qed
  qed
  moreover have "eager (free_area s')"
    unfolding eager_def
  proof (intro allI impI ballI)
    fix j p assume j: "MIN_ORDER \<le> j \<and> j < MAX_ORDER" and p: "p \<in> set (free_area s' j)"
    show "buddy_page p j \<notin> set (free_area s' j)"
    proof (cases "T \<le> j \<and> j < k")
      case True
      with p fa have "p = buddy_page H j" "set (free_area s' j) = {buddy_page H j}" by simp_all
      moreover have "buddy_page (buddy_page H j) j \<noteq> buddy_page H j" by (rule buddy_page_neq)
      ultimately show ?thesis by simp
    next
      case False
      with p fa block(5) have sub: "set (free_area s' j) \<subseteq> set (free_area s j)"
        and "p \<in> set (free_area s j)"
        by (auto split: if_splits)
      with eag j have "buddy_page p j \<notin> set (free_area s j)" by (auto dest: eagerD)
      with sub show ?thesis by blast
    qed
  qed
  ultimately show ?thesis by (simp add: allocator_inv_def)
qed

lemma coalesce_spec_inv:
  "coalesce_spec fa h k = (fa', h', k') \<Longrightarrow> aligned h k \<Longrightarrow> MIN_ORDER \<le> k \<Longrightarrow>
   aligned h' k' \<and> (\<forall>j. set (fa' j) \<subseteq> set (fa j)) \<and>
   (k' < MAX_ORDER \<longrightarrow> buddy_page h' k' \<notin> set (fa' k'))"
proof (induction fa h k rule: coalesce_spec.induct)
  case (1 fa h k)
  show ?case
  proof (cases "k < MAX_ORDER \<and> buddy_page h k \<in> set (fa k)")
    case False
    with "1.prems" show ?thesis
      by (subst (asm) coalesce_spec.simps) (auto simp: Let_def split: if_splits)
  next
    case True
    let ?b = "buddy_page h k"
    let ?h = "if ?b < h then ?b else h"
    let ?fa = "fa(k := remove1 ?b (fa k))"
    from True "1.prems"(1)
    have rec: "coalesce_spec ?fa ?h (k + 1) = (fa', h', k')"
      by (subst (asm) coalesce_spec.simps) (simp add: Let_def)
    have al: "aligned ?h (k + 1)"
      using "1.prems"(2,3) by (rule aligned_merge)
    from "1.prems"(3) have k: "MIN_ORDER \<le> k + 1" by simp
    from True have "k < MAX_ORDER" "?b \<in> set (fa k)" by simp_all
    from "1.IH" [OF this(1) refl this(2) rec al k]
    have IH: "aligned h' k'" "\<forall>j. set (fa' j) \<subseteq> set (?fa j)"
      "k' < MAX_ORDER \<longrightarrow> buddy_page h' k' \<notin> set (fa' k')"
      by simp_all
    have "set (?fa j) \<subseteq> set (fa j)" for j
      using set_remove1_subset [of ?b "fa k"] by auto
    with IH(2) have "\<forall>j. set (fa' j) \<subseteq> set (fa j)" by blast
    with IH(1,3) show ?thesis by simp
  qed
qed

lemma buddy_free_cases:
  assumes "buddy_free s a = Inr s'" "pages_ok s"
  obtains H k0 fa h k where "unat (ADDR_TO_PAGE (g_memory s) a) = H" "H < n_pages"
    "order (g_pages s ! H) = k0" "MIN_ORDER \<le> k0" "k0 \<le> MAX_ORDER"
    "coalesce_spec (free_area s) H k0 = (fa, h, k)"
    "s' = list_add h k (set_order h k (s\<lparr>free_area := fa\<rparr>))"
proof -
  let ?H = "unat (ADDR_TO_PAGE (g_memory s) a)"
  from assms(1) have H: "?H < n_pages"
    by (auto simp: buddy_free_def Let_def split: if_splits)
  with assms(1) have k0: "MIN_ORDER \<le> order (g_pages s ! ?H)" "order (g_pages s ! ?H) \<le> MAX_ORDER"
    by (auto simp: buddy_free_def Let_def split: if_splits)
  obtain fa h k where c: "coalesce_spec (free_area s) ?H (order (g_pages s ! ?H)) = (fa, h, k)"
    by (cases "coalesce_spec (free_area s) ?H (order (g_pages s ! ?H))")
  from buddy_free_effect [OF assms(2) refl H refl k0 c] assms(1)
  have "s' = s\<lparr>g_pages := (g_pages s)[h := (g_pages s ! h)\<lparr>order := k\<rparr>],
            free_area := fa(k := h # fa k)\<rparr>"
    by simp
  then have "s' = list_add h k (set_order h k (s\<lparr>free_area := fa\<rparr>))"
    by (simp add: list_add_def set_order_def)
  with H k0 c show ?thesis by (intro that [OF refl _ refl])
qed

lemma pages_ok_free_area_update [simp]: "pages_ok (s\<lparr>free_area := fa\<rparr>) = pages_ok s"
  by (simp add: pages_ok_def)

lemma allocator_inv_buddy_free:
  assumes "allocator_inv s" "buddy_free s a = Inr s'"
  shows "allocator_inv s'"
proof -
  from assms(1) have ok: "pages_ok s" and lists: "lists_ok s" and orders: "orders_ok s"
    and eag: "eager (free_area s)"
    by (simp_all add: allocator_inv_def)
  from assms(2) ok obtain H k0 fa h k where
    f: "unat (ADDR_TO_PAGE (g_memory s) a) = H" "H < n_pages"
    "order (g_pages s ! H) = k0" "MIN_ORDER \<le> k0" "k0 \<le> MAX_ORDER"
    "coalesce_spec (free_area s) H k0 = (fa, h, k)"
    "s' = list_add h k (set_order h k (s\<lparr>free_area := fa\<rparr>))"
    by (rule buddy_free_cases)
  from orders f(2,3,4,5) have al0: "aligned H k0" by (auto simp: orders_ok_def)
  from coalesce_spec_bounds [OF f(6,2,4,5)]
  have b: "h < n_pages" "k0 \<le> k" "k \<le> MAX_ORDER" by simp_all
  from coalesce_spec_inv [OF f(6) al0 f(4)]
  have c: "aligned h k" "\<And>j. set (fa j) \<subseteq> set (free_area s j)"
    "k < MAX_ORDER \<Longrightarrow> buddy_page h k \<notin> set (fa k)"
    by simp_all
  have k: "MIN_ORDER \<le> k" using f(4) b(2) by simp
  have len: "length (g_pages s) = n_pages" using ok by (rule pages_ok_length)
  have fa': "free_area s' j = (if j = k then h # fa k else fa j)" for j
    by (simp add: f(7))
  have "pages_ok s'" using ok by (simp add: f(7))
  moreover have "lists_ok s'"
    unfolding lists_ok_def
  proof (intro ballI)
    fix j p assume j: "j \<in> {MIN_ORDER..MAX_ORDER}" and p: "p \<in> set (free_area s' j)"
    show "p < n_pages \<and> aligned p j"
    proof (cases "j = k \<and> p = h")
      case True
      with b(1) c(1) show ?thesis by simp
    next
      case False
      with p fa' have "p \<in> set (fa j)" by (auto split: if_splits)
      with c(2) have "p \<in> set (free_area s j)" by blast
      with lists j show ?thesis by (auto dest: lists_okD)
    qed
  qed
  moreover have "orders_ok s'"
    unfolding orders_ok_def
  proof (intro allI impI)
    fix q assume q: "q < n_pages"
      and r: "MIN_ORDER \<le> order (g_pages s' ! q) \<and> order (g_pages s' ! q) \<le> MAX_ORDER"
    have o: "order (g_pages s' ! q) = (if q = h then k else order (g_pages s ! q))"
      using b(1) len by (simp add: f(7) set_order_def nth_list_update)
    show "aligned q (order (g_pages s' ! q))"
    proof (cases "q = h")
      case True
      with o c(1) show ?thesis by simp
    next
      case False
      with o r q orders show ?thesis by (simp add: orders_ok_def)
    qed
  qed
  moreover have "eager (free_area s')"
    unfolding eager_def
  proof (intro allI impI ballI)
    fix j p assume j: "MIN_ORDER \<le> j \<and> j < MAX_ORDER" and p: "p \<in> set (free_area s' j)"
    have old: "buddy_page p j \<notin> set (fa j)" if "p \<in> set (fa j)"
    proof -
      from that c(2) have "p \<in> set (free_area s j)" by blast
      with eag j have "buddy_page p j \<notin> set (free_area s j)" by (auto dest: eagerD)
      with c(2) show ?thesis by blast
    qed
    show "buddy_page p j \<notin> set (free_area s' j)"
    proof (cases "j = k")
      case False
      with p fa' old show ?thesis by simp
    next
      case True
      with j have exit: "buddy_page h k \<notin> set (fa k)" by (intro c(3)) simp
      show ?thesis
      proof (cases "p = h")
        case True
        with exit \<open>j = k\<close> fa' show ?thesis by simp
      next
        case False
        with p fa' \<open>j = k\<close> have pin: "p \<in> set (fa k)" by simp
        then have "buddy_page p k \<notin> set (fa k)" using old \<open>j = k\<close> by simp
        moreover have "buddy_page p k \<noteq> h"
        proof
          assume "buddy_page p k = h"
          then have "buddy_page (buddy_page p k) k = buddy_page h k" by simp
          then have "buddy_page h k = p" by simp
          with exit pin show False by simp
        qed
        ultimately show ?thesis using \<open>j = k\<close> fa' by simp
      qed
    qed
  qed
  ultimately show ?thesis by (simp add: allocator_inv_def)
qed

lemma reachable_allocator_inv: "reachable s A \<Longrightarrow> allocator_inv s"
proof (induction rule: reachable.induct)
  case (reach_init s0)
  show ?case by (rule allocator_inv_buddy_init)
next
  case (reach_alloc s A sz s' r)
  then show ?case by (auto intro: allocator_inv_buddy_alloc)
next
  case (reach_free s A a s')
  then show ?case by (auto intro: allocator_inv_buddy_free)
qed

lemma alloc_5000_after_init:
  "\<exists>s'. buddy_alloc (buddy_init (zeroed 65536)) 5000 = Inr (s', Some 65536) \<and>
     free_area s' 13 = [buddy_page 0 13]"
proof -
  let ?s = "buddy_init (zeroed 65536)"
  have a: "pages_ok ?s" by (rule pages_ok_buddy_init)
  have b: "(0::nat) < n_pages" by (simp add: n_pages_eq)
  have T: "determineOrder 5000 = 13"
    by (rule determineOrder_eqI) (simp_all add: MIN_ORDER_def MAX_ORDER_def)
  have c: "(13::int) \<noteq> - 1" "13 \<le> MAX_ORDER" "MAX_ORDER \<le> MAX_ORDER"
    by (simp_all add: MAX_ORDER_def)
  have d: "free_area ?s MAX_ORDER = 0 # []"
    "\<forall>j. 13 \<le> j \<and> j < MAX_ORDER \<longrightarrow> free_area ?s j = []"
    by (simp_all add: buddy_init_fields zeroed_def MIN_ORDER_def)
  have e: "address (g_pages ?s ! 0) = 65536"
    using b by (simp add: buddy_init_nth PAGE_TO_ADDR_def zeroed_def)
  have f: "(13::int) \<le> 13 \<and> 13 < MAX_ORDER" by (simp add: MAX_ORDER_def)
  from buddy_alloc_effect [OF a b T c d]
  obtain s' where s': "buddy_alloc ?s 5000 = Inr (s', Some (address (g_pages ?s ! 0)))"
    "\<forall>j. 13 \<le> j \<and> j < MAX_ORDER \<longrightarrow> free_area s' j = [buddy_page 0 j]"
    by blast
  from s'(2) f have "free_area s' 13 = [buddy_page 0 13]" by blast
  with s'(1) e show ?thesis by simp
qed

section \<open>Allocating and freeing again\<close>

text \<open>The spec's loop undoes a split: when every list from \<open>T\<close> below \<open>k\<close> holds just the
  buddy of \<open>H\<close> of its order, and the buddy of order \<open>k\<close> is not free, the loop started
  with \<open>H\<close> at order \<open>T\<close> empties these lists and stops with \<open>H\<close> at order \<open>k\<close>.\<close>

lemma coalesce_spec_undo:
  assumes "T \<le> k" "k \<le> MAX_ORDER" "MIN_ORDER \<le> T" "aligned H k"
    and "\<forall>j. T \<le> j \<and> j < k \<longrightarrow> fa j = [buddy_page H j]"
    and "k < MAX_ORDER \<longrightarrow> buddy_page H k \<notin> set (fa k)"
  shows "coalesce_spec fa H T = ((\<lambda>j. if T \<le> j \<and> j < k then [] else fa j), H, k)"
  using assms
proof (induction "nat (k - T)" arbitrary: T fa)
  case 0
  then have "T = k" by simp
  moreover have "(\<lambda>j. if k \<le> j \<and> j < k then [] else fa j) = fa"
    by (auto simp: fun_eq_iff)
  ultimately show ?case
    using "0.prems"(6) by (subst coalesce_spec.simps) (simp add: Let_def)
next
  case (Suc n)
  then have T: "T < k" "T < MAX_ORDER" "n = nat (k - (T + 1))" "T + 1 \<le> k" "MIN_ORDER \<le> T + 1"
    by simp_all
  let ?b = "buddy_page H T"
  let ?fa = "fa(T := remove1 ?b (fa T))"
  from Suc.prems(5) T(1) have faT: "fa T = [?b]" by simp
  from Suc.prems(4) T(4) have "aligned H (T + 1)" by (rule aligned_down)
  then have "?b = H + 2 ^ nat (T - MIN_ORDER)"
    using Suc.prems(3) by (rule buddy_page_right)
  then have h: "(if ?b < H then ?b else H) = H" by simp
  have "\<forall>j. T + 1 \<le> j \<and> j < k \<longrightarrow> ?fa j = [buddy_page H j]"
    using Suc.prems(5) by simp
  moreover have "k < MAX_ORDER \<longrightarrow> buddy_page H k \<notin> set (?fa k)"
    using Suc.prems(6) T(1) by simp
  ultimately have "coalesce_spec ?fa H (T + 1) = ((\<lambda>j. if T + 1 \<le> j \<and> j < k then [] else ?fa j), H, k)"
    using T Suc.prems(2,4) by (intro Suc.hyps(1))
  moreover have "(\<lambda>j. if T + 1 \<le> j \<and> j < k then [] else ?fa j) = (\<lambda>j. if T \<le> j \<and> j < k then [] else fa j)"
    using T(1) faT by (auto simp: fun_eq_iff)
  moreover have "coalesce_spec fa H T = coalesce_spec ?fa H (T + 1)"
    using T(2) faT by (subst coalesce_spec.simps) (simp add: Let_def h)
  ultimately show ?case by simp
qed

text \<open>After a successful \<open>buddy_alloc\<close> in a state that satisfies the invariants,
  \<open>buddy_free\<close> of the returned address returns and leaves the free lists as they were
  before the \<open>buddy_alloc\<close>, each in its old order.\<close>

lemma alloc_free_lists:
  assumes "allocator_inv s" "buddy_alloc s sz = Inr (s', Some a)"
  shows "\<exists>s''. buddy_free s' a = Inr s'' \<and> free_area s'' = free_area s"
  using assms(2)
proof (cases rule: buddy_alloc_cases)
  case null
  then show ?thesis by simp
next
  case (block T k H rest)
  from assms(1) have ok: "pages_ok s" and lists: "lists_ok s" and eag: "eager (free_area s)"
    by (simp_all add: allocator_inv_def)
  have Tk: "MIN_ORDER \<le> k" using block(2,3) by simp
  have Hin: "H \<in> set (free_area s k)" using block(5) by simp
  with lists Tk block(4) have H: "H < n_pages" "aligned H k"
    by (auto dest: lists_okD)
  have Tn: "T \<noteq> - 1" using block(2) by (simp add: MIN_ORDER_def)
  from buddy_alloc_effect [OF ok H(1) block(1) Tn block(3,4,5,6)] assms(2)
  obtain s1 where s': "s' = set_order H T s1" "splitMemory (list_del_init H k s) H k T = Inr s1"
    "a = address (g_pages s ! H)"
    "free_area s' k = rest" "\<forall>j. T \<le> j \<and> j < k \<longrightarrow> free_area s' j = [buddy_page H j]"
    "\<forall>j. j < T \<or> k < j \<longrightarrow> free_area s' j = free_area s j"
    "order (g_pages s' ! H) = T"
    by auto
  have ok0: "pages_ok (list_del_init H k s)" using ok by simp
  from splitMemory_effect [OF ok0 H(1) block(2,3,4)] s'(2)
  have s1: "g_memory s1 = g_memory s" "pages_ok s1" by auto
  then have ok': "pages_ok s'" and g: "g_memory s' = g_memory s" by (simp_all add: s'(1))
  have page: "unat (ADDR_TO_PAGE (g_memory s') a) = H"
    using ok H(1) by (simp add: g s'(3) pages_ok_nth ADDR_TO_PAGE_PAGE_TO_ADDR)
  have T: "T \<le> MAX_ORDER" using block(3,4) by simp
  have exit: "k < MAX_ORDER \<longrightarrow> buddy_page H k \<notin> set (free_area s' k)"
  proof
    assume "k < MAX_ORDER"
    with eag Tk Hin have "buddy_page H k \<notin> set (free_area s k)" by (auto dest: eagerD)
    with block(5) s'(4) show "buddy_page H k \<notin> set (free_area s' k)" by simp
  qed
  let ?fa = "\<lambda>j. if T \<le> j \<and> j < k then [] else free_area s' j"
  have c: "coalesce_spec (free_area s') H T = (?fa, H, k)"
    using block(3,4,2) H(2) s'(5) exit by (rule coalesce_spec_undo)
  have "?fa(k := H # ?fa k) = free_area s"
  proof
    fix j
    show "(?fa(k := H # ?fa k)) j = free_area s j"
      using s'(4,6) block(5,6) by (cases "j = k") auto
  qed
  with buddy_free_effect [OF ok' page H(1) s'(7) block(2) T c]
  have "buddy_free s' a =
     Inr (s'\<lparr>g_pages := (g_pages s')[H := (g_pages s' ! H)\<lparr>order := k\<rparr>], free_area := free_area s\<rparr>)"
    by simp
  then show ?thesis by simp
qed

text \<open>
  Claim C4. In every reachable state, when \<open>buddy_alloc\<close> returns an address, an
  immediate \<open>buddy_free\<close> of that address returns and leaves on every free list the
  blocks that were there before the \<open>buddy_alloc\<close>.
\<close>

theorem alloc_free_restores:
  assumes "reachable s A" "buddy_alloc s sz = Inr (s', Some a)"
  shows "\<exists>s''. buddy_free s' a = Inr s'' \<and>
     (\<forall>k. mset (free_area s'' k) = mset (free_area s k))"
proof -
  from assms(1) have "allocator_inv s" by (rule reachable_allocator_inv)
  from alloc_free_lists [OF this assms(2)] show ?thesis by auto
qed

theorem alloc_free_restores_witness:
  "\<exists>s' s''. buddy_alloc (buddy_init (zeroed 65536)) 5000 = Inr (s', Some 65536) \<and>
     free_area s' 13 = [buddy_page 0 13] \<and>
     buddy_free s' 65536 = Inr s'' \<and>
     mset (free_area s'' 13) = mset (free_area (buddy_init (zeroed 65536)) 13)"
proof -
  from alloc_5000_after_init obtain s' where
    s': "buddy_alloc (buddy_init (zeroed 65536)) 5000 = Inr (s', Some 65536)"
    "free_area s' 13 = [buddy_page 0 13]"
    by blast
  from alloc_free_restores [OF reach_init s'(1)] s' show ?thesis by blast
qed

section \<open>Calls that satisfy their preconditions return\<close>

lemma stored_order_okI:
  assumes "p < n_pages" "MIN_ORDER \<le> order (g_pages s ! p)" "order (g_pages s ! p) \<le> MAX_ORDER"
  shows "stored_order_ok s (PAGE_TO_ADDR (g_memory s) (int p))"
  using assms by (simp add: stored_order_ok_def ADDR_TO_PAGE_PAGE_TO_ADDR)

lemma buddy_free_returns:
  assumes "pages_ok s" "stored_order_ok s a"
  shows "\<exists>s'. buddy_free s a = Inr s'"
proof -
  let ?H = "unat (ADDR_TO_PAGE (g_memory s) a)"
  from assms(2) have H: "?H < n_pages" "MIN_ORDER \<le> order (g_pages s ! ?H)"
    "order (g_pages s ! ?H) \<le> MAX_ORDER"
    by (simp_all add: stored_order_ok_def)
  obtain fa h k where "coalesce_spec (free_area s) ?H (order (g_pages s ! ?H)) = (fa, h, k)"
    by (cases "coalesce_spec (free_area s) ?H (order (g_pages s ! ?H))")
  from buddy_free_effect [OF assms(1) refl H(1) refl H(2,3) this] show ?thesis
    by blast
qed

lemma buddy_alloc_returns:
  assumes "pages_ok s" "lists_ok s"
  shows "\<exists>s' r. buddy_alloc s sz = Inr (s', r)"
proof (cases "determineOrder sz = - 1")
  case True
  then show ?thesis by (simp add: buddy_alloc_def)
next
  case False
  with determineOrder_cases [of sz]
  have T: "MIN_ORDER \<le> determineOrder sz" "determineOrder sz \<le> MAX_ORDER" by simp_all
  from buddy_alloc_loop_cases [of "determineOrder sz" s] show ?thesis
  proof
    assume "\<forall>k. determineOrder sz \<le> k \<and> k \<le> MAX_ORDER \<longrightarrow> free_area s k = []"
    then have "buddy_alloc_loop s (determineOrder sz) (determineOrder sz) = Inr (s, None)"
      by (rule buddy_alloc_loop_empty)
    with False show ?thesis by (simp add: buddy_alloc_def Let_def)
  next
    assume "\<exists>k H rest. determineOrder sz \<le> k \<and> k \<le> MAX_ORDER \<and> free_area s k = H # rest \<and>
      (\<forall>j. determineOrder sz \<le> j \<and> j < k \<longrightarrow> free_area s j = [])"
    then obtain k H rest where k: "determineOrder sz \<le> k" "k \<le> MAX_ORDER"
      "free_area s k = H # rest"
      "\<forall>j. determineOrder sz \<le> j \<and> j < k \<longrightarrow> free_area s j = []" by blast
    from k(3) have "H \<in> set (free_area s k)" by simp
    moreover from T(1) k(1) have "MIN_ORDER \<le> k" by simp
    ultimately have "H < n_pages" using assms(2) k(2) by (auto dest: lists_okD)
    from buddy_alloc_effect [OF assms(1) this refl False k] show ?thesis by blast
  qed
qed

text \<open>A stored order between \<open>MIN_ORDER\<close> and \<open>MAX_ORDER\<close> stays in that range: only
  \<open>buddy_init\<close> writes another value.\<close>

lemma buddy_alloc_stored_orders:
  assumes "allocator_inv s" "buddy_alloc s sz = Inr (s', r)"
  shows "g_memory s' = g_memory s \<and>
     (\<forall>q<n_pages. MIN_ORDER \<le> order (g_pages s ! q) \<and> order (g_pages s ! q) \<le> MAX_ORDER \<longrightarrow>
        MIN_ORDER \<le> order (g_pages s' ! q) \<and> order (g_pages s' ! q) \<le> MAX_ORDER) \<and>
     (\<forall>a. r = Some a \<longrightarrow> stored_order_ok s' a)"
  using assms(2)
proof (cases rule: buddy_alloc_cases)
  case null
  then show ?thesis by simp
next
  case (block T k H rest)
  from assms(1) have ok: "pages_ok s" and lists: "lists_ok s"
    by (simp_all add: allocator_inv_def)
  have Tk: "MIN_ORDER \<le> k" using block(2,3) by simp
  have "H \<in> set (free_area s k)" using block(5) by simp
  with lists Tk block(4) have H: "H < n_pages" by (auto dest: lists_okD)
  let ?s0 = "list_del_init H k s"
  have ok0: "pages_ok ?s0" using ok by simp
  from splitMemory_effect [OF ok0 H block(2,3,4)]
  obtain s1 where s1: "splitMemory ?s0 H k T = Inr s1" "g_memory s1 = g_memory ?s0" "pages_ok s1"
    "\<forall>j. T \<le> j \<and> j < k \<longrightarrow> order (g_pages s1 ! buddy_page H j) = j"
    "\<forall>q. (\<forall>j. T \<le> j \<and> j < k \<longrightarrow> q \<noteq> buddy_page H j) \<longrightarrow> g_pages s1 ! q = g_pages ?s0 ! q"
    by blast
  have Tn: "T \<noteq> - 1" using block(2) by (simp add: MIN_ORDER_def)
  from buddy_alloc_effect [OF ok H block(1) Tn block(3,4,5,6)] assms(2) s1(1)
  have s': "s' = set_order H T s1" "r = Some (address (g_pages s ! H))"
    by auto
  have len: "length (g_pages s1) = n_pages" using s1(3) by (rule pages_ok_length)
  have g: "g_memory s' = g_memory s" using s1(2) by (simp add: s'(1))
  have T: "T \<le> MAX_ORDER" using block(3,4) by simp
  have ordH: "order (g_pages s' ! H) = T"
    using H len by (simp add: s'(1) set_order_order)
  have keep: "MIN_ORDER \<le> order (g_pages s' ! q) \<and> order (g_pages s' ! q) \<le> MAX_ORDER"
    if q: "q < n_pages"
      and r: "MIN_ORDER \<le> order (g_pages s ! q) \<and> order (g_pages s ! q) \<le> MAX_ORDER" for q
  proof (cases "q = H")
    case True
    with ordH block(2) T show ?thesis by simp
  next
    case False
    then have o: "order (g_pages s' ! q) = order (g_pages s1 ! q)"
      using H len by (simp add: s'(1) set_order_order)
    show ?thesis
    proof (cases "\<exists>j. T \<le> j \<and> j < k \<and> q = buddy_page H j")
      case True
      then obtain j where j: "T \<le> j" "j < k" "q = buddy_page H j" by blast
      with s1(4) have "order (g_pages s1 ! q) = j" by simp
      with o j block(2,4) show ?thesis by simp
    next
      case False
      with s1(5) have "g_pages s1 ! q = g_pages s ! q" by auto
      with o r show ?thesis by simp
    qed
  qed
  have "stored_order_ok s' (PAGE_TO_ADDR (g_memory s') (int H))"
    using H by (rule stored_order_okI) (simp_all add: ordH block(2) T)
  then have "stored_order_ok s' (address (g_pages s ! H))"
    using ok H by (simp add: g pages_ok_nth)
  with g keep s'(2) show ?thesis by simp
qed

lemma buddy_free_stored_orders:
  assumes "pages_ok s" "buddy_free s a = Inr s'"
  shows "g_memory s' = g_memory s \<and>
     (\<forall>q<n_pages. MIN_ORDER \<le> order (g_pages s ! q) \<and> order (g_pages s ! q) \<le> MAX_ORDER \<longrightarrow>
        MIN_ORDER \<le> order (g_pages s' ! q) \<and> order (g_pages s' ! q) \<le> MAX_ORDER)"
proof -
  from assms(2,1) obtain H k0 fa h k where
    f: "unat (ADDR_TO_PAGE (g_memory s) a) = H" "H < n_pages"
    "order (g_pages s ! H) = k0" "MIN_ORDER \<le> k0" "k0 \<le> MAX_ORDER"
    "coalesce_spec (free_area s) H k0 = (fa, h, k)"
    "s' = list_add h k (set_order h k (s\<lparr>free_area := fa\<rparr>))"
    by (rule buddy_free_cases)
  from coalesce_spec_bounds [OF f(6,2,4,5)]
  have b: "h < n_pages" "k0 \<le> k" "k \<le> MAX_ORDER" by simp_all
  have len: "length (g_pages s) = n_pages" using assms(1) by (rule pages_ok_length)
  have "order (g_pages s' ! q) = (if q = h then k else order (g_pages s ! q))" if "q < n_pages" for q
    using that len by (simp add: f(7) set_order_def nth_list_update)
  with b f(4) show ?thesis by (simp add: f(7))
qed

lemma reachable_stored_orders: "reachable s A \<Longrightarrow> \<forall>a\<in>A. stored_order_ok s a"
proof (induction rule: reachable.induct)
  case (reach_init s0)
  show ?case by simp
next
  case (reach_alloc s A sz s' r)
  from reach_alloc.hyps(1) have "allocator_inv s" by (rule reachable_allocator_inv)
  from buddy_alloc_stored_orders [OF this reach_alloc.hyps(2)]
  have keep: "g_memory s' = g_memory s"
    "\<forall>q<n_pages. MIN_ORDER \<le> order (g_pages s ! q) \<and> order (g_pages s ! q) \<le> MAX_ORDER \<longrightarrow>
        MIN_ORDER \<le> order (g_pages s' ! q) \<and> order (g_pages s' ! q) \<le> MAX_ORDER"
    "\<forall>a. r = Some a \<longrightarrow> stored_order_ok s' a"
    by simp_all
  have old: "\<forall>a\<in>A. stored_order_ok s' a"
    using reach_alloc.IH keep(1,2) by (auto simp: stored_order_ok_def)
  show ?case
  proof (cases r)
    case None
    with old show ?thesis by simp
  next
    case (Some a)
    with old keep(3) show ?thesis by simp
  qed
next
  case (reach_free s A a s')
  from reach_free.hyps(1) have "pages_ok s"
    by (auto dest: reachable_allocator_inv simp: allocator_inv_def)
  from buddy_free_stored_orders [OF this reach_free.hyps(3)] reach_free.IH
  show ?case by (auto simp: stored_order_ok_def)
qed

text \<open>In a reachable state every \<open>buddy_alloc\<close> returns, and so does \<open>buddy_free\<close> of
  every outstanding allocation: the check of the stored order passes and no index leaves
  \<open>g_pages\<close> or \<open>free_area\<close>.\<close>

lemma reachable_calls_return:
  assumes "reachable s A"
  shows "(\<exists>s' r. buddy_alloc s sz = Inr (s', r)) \<and> (\<forall>a\<in>A. \<exists>s'. buddy_free s a = Inr s')"
proof -
  from assms have "allocator_inv s" by (rule reachable_allocator_inv)
  then have ok: "pages_ok s" "lists_ok s" by (simp_all add: allocator_inv_def)
  from ok have "\<exists>s' r. buddy_alloc s sz = Inr (s', r)" by (rule buddy_alloc_returns)
  moreover from assms ok(1) have "\<forall>a\<in>A. \<exists>s'. buddy_free s a = Inr s'"
    by (auto dest: reachable_stored_orders intro: buddy_free_returns)
  ultimately show ?thesis by simp
qed

section \<open>Blocks do not overlap\<close>

lemma block_pages_self: "p \<in> block_pages p k"
  by (simp add: block_pages_def)

lemma block_pages_mono:
  assumes "j \<le> k"
  shows "block_pages p j \<subseteq> block_pages p k"
proof -
  have "(2::nat) ^ nat (j - MIN_ORDER) \<le> 2 ^ nat (k - MIN_ORDER)"
    using assms by (intro power_increasing) simp_all
  then show ?thesis by (auto simp: block_pages_def)
qed

lemma pow2_order_Suc:
  assumes "MIN_ORDER \<le> j"
  shows "(2::nat) ^ nat (j + 1 - MIN_ORDER) = 2 * 2 ^ nat (j - MIN_ORDER)"
proof -
  from assms have "nat (j + 1 - MIN_ORDER) = Suc (nat (j - MIN_ORDER))" by simp
  then show ?thesis by simp
qed

text \<open>The right half of a block lies in the block and outside its left half.\<close>

lemma block_pages_right_half:
  assumes "aligned H (j + 1)" "MIN_ORDER \<le> j"
  shows "block_pages (buddy_page H j) j \<subseteq> block_pages H (j + 1)"
    and "block_pages (buddy_page H j) j \<inter> block_pages H j = {}"
proof -
  have b: "buddy_page H j = H + 2 ^ nat (j - MIN_ORDER)"
    using assms by (rule buddy_page_right)
  show "block_pages (buddy_page H j) j \<subseteq> block_pages H (j + 1)"
    by (auto simp: block_pages_def b pow2_order_Suc [OF assms(2)])
  show "block_pages (buddy_page H j) j \<inter> block_pages H j = {}"
    by (auto simp: block_pages_def b)
qed

text \<open>The block that two buddies merge into consists of their pages.\<close>

lemma block_pages_merge:
  assumes "aligned h i" "MIN_ORDER \<le> i"
  shows "block_pages (if buddy_page h i < h then buddy_page h i else h) (i + 1)
     \<subseteq> block_pages h i \<union> block_pages (buddy_page h i) i"
proof (cases "buddy_page h i < h")
  case False
  have "aligned (if buddy_page h i < h then buddy_page h i else h) (i + 1)"
    using assms by (rule aligned_merge)
  with False have "aligned h (i + 1)" by simp
  then have "buddy_page h i = h + 2 ^ nat (i - MIN_ORDER)"
    using assms(2) by (rule buddy_page_right)
  with False show ?thesis
    by (auto simp: block_pages_def pow2_order_Suc [OF assms(2)])
next
  case True
  define b where "b = buddy_page h i"
  have "aligned (if b < h then b else h) (i + 1)"
    unfolding b_def using assms by (rule aligned_merge)
  with True have "aligned b (i + 1)" by (simp add: b_def)
  then have "buddy_page b i = b + 2 ^ nat (i - MIN_ORDER)"
    using assms(2) by (rule buddy_page_right)
  moreover have "buddy_page b i = h" by (simp add: b_def)
  ultimately have h: "h = b + 2 ^ nat (i - MIN_ORDER)" by (simp only:)
  have "block_pages b (i + 1) \<subseteq> block_pages (b + 2 ^ nat (i - MIN_ORDER)) i \<union> block_pages b i"
    by (auto simp: block_pages_def pow2_order_Suc [OF assms(2)])
  then have "block_pages b (i + 1) \<subseteq> block_pages h i \<union> block_pages b i"
    by (simp only: h)
  with True show ?thesis by (simp add: b_def)
qed

lemma apartD: "apart E \<Longrightarrow> b \<in> E \<Longrightarrow> c \<in> E \<Longrightarrow> b \<noteq> c \<Longrightarrow> region b \<inter> region c = {}"
  unfolding apart_def by (metis (no_types))

lemma apart_subset: "apart E \<Longrightarrow> E' \<subseteq> E \<Longrightarrow> apart E'"
  unfolding apart_def by (meson subsetD)

text \<open>Replacing some blocks by blocks made of their pages keeps the blocks apart.\<close>

lemma apart_replace:
  assumes "apart E" "M \<subseteq> E" "apart N" "\<forall>n\<in>N. region n \<subseteq> (\<Union>m\<in>M. region m)"
  shows "apart ((E - M) \<union> N)"
  unfolding apart_def
proof (intro ballI impI)
  fix b c assume b: "b \<in> (E - M) \<union> N" and c: "c \<in> (E - M) \<union> N" and ne: "b \<noteq> c"
  have old_new: "region x \<inter> region n = {}" if x: "x \<in> E - M" and n: "n \<in> N" for x n
  proof (rule ccontr)
    assume "region x \<inter> region n \<noteq> {}"
    then obtain y where y: "y \<in> region x" "y \<in> region n" by blast
    from assms(4) n have "region n \<subseteq> (\<Union>m\<in>M. region m)" by (rule bspec)
    with y(2) obtain m where m: "m \<in> M" "y \<in> region m" by blast
    from m(1) assms(2) x have "m \<in> E" "x \<in> E" "x \<noteq> m" by blast+
    with assms(1) have "region x \<inter> region m = {}" unfolding apart_def by (metis (no_types))
    with y(1) m(2) show False by blast
  qed
  consider "b \<in> E - M" "c \<in> E - M" | "b \<in> E - M" "c \<in> N" | "b \<in> N" "c \<in> E - M" | "b \<in> N" "c \<in> N"
    using b c by blast
  then show "region b \<inter> region c = {}"
  proof cases
    case 1
    then have "b \<in> E" "c \<in> E" by simp_all
    with assms(1) ne show ?thesis unfolding apart_def by (metis (no_types))
  next
    case 2
    then show ?thesis by (rule old_new)
  next
    case 3
    then have "region c \<inter> region b = {}" by (intro old_new)
    then show ?thesis by blast
  next
    case 4
    with assms(3) ne show ?thesis unfolding apart_def by (metis (no_types))
  qed
qed

lemma extant_freeI:
  "MIN_ORDER \<le> k \<Longrightarrow> k \<le> MAX_ORDER \<Longrightarrow> p \<in> set (free_area s k) \<Longrightarrow> (True, p, k) \<in> extant s A"
  by (simp add: extant_def)

lemma extant_usedI:
  "a \<in> A \<Longrightarrow> (False, unat (ADDR_TO_PAGE (g_memory s) a),
      order (g_pages s ! unat (ADDR_TO_PAGE (g_memory s) a))) \<in> extant s A"
  unfolding extant_def by blast

lemma extant_cases:
  assumes "x \<in> extant s A"
  obtains (free) p k where "x = (True, p, k)" "MIN_ORDER \<le> k" "k \<le> MAX_ORDER" "p \<in> set (free_area s k)"
  | (used) a where "a \<in> A" "x = (False, unat (ADDR_TO_PAGE (g_memory s) a),
      order (g_pages s ! unat (ADDR_TO_PAGE (g_memory s) a)))"
  using assms unfolding extant_def by blast

lemma region_simp [simp]: "region (f, p, k) = block_pages p k"
  by (simp add: region_def)

lemma unique_membership_buddy_init: "unique_membership (buddy_init s) {}"
proof -
  have "extant (buddy_init s) {} \<subseteq> {(True, 0, MAX_ORDER)}"
    by (auto simp: extant_def buddy_init_fields split: if_splits)
  moreover have "apart {(True, 0, MAX_ORDER)}"
    by (simp add: apart_def)
  ultimately have "apart (extant (buddy_init s) {})"
    by (rule apart_subset [rotated])
  then show ?thesis
    by (simp add: unique_membership_def buddy_init_fields)
qed

text \<open>The pieces that a split leaves are apart and lie in the block that is split.\<close>

lemma split_pieces:
  assumes "aligned H k" "MIN_ORDER \<le> T" "T \<le> k"
  defines "N \<equiv> {(True, buddy_page H j, j) | j. T \<le> j \<and> j < k} \<union> {(False, H, T)}"
  shows "apart N" and "\<forall>n\<in>N. region n \<subseteq> block_pages H k"
proof -
  have half: "block_pages (buddy_page H j) j \<subseteq> block_pages H (j + 1)"
    "block_pages (buddy_page H j) j \<inter> block_pages H j = {}" if "T \<le> j" "j < k" for j
  proof -
    from that have "j + 1 \<le> k" by simp
    with assms(1) have "aligned H (j + 1)" by (rule aligned_down)
    moreover from that assms(2) have "MIN_ORDER \<le> j" by simp
    ultimately show "block_pages (buddy_page H j) j \<subseteq> block_pages H (j + 1)"
      "block_pages (buddy_page H j) j \<inter> block_pages H j = {}"
      by (rule block_pages_right_half)+
  qed
  have two: "block_pages (buddy_page H i) i \<inter> block_pages (buddy_page H j) j = {}"
    if "T \<le> i" "i < j" "j < k" for i j
  proof -
    from that have "block_pages (buddy_page H i) i \<subseteq> block_pages H (i + 1)"
      by (intro half(1)) simp_all
    also from that have "\<dots> \<subseteq> block_pages H j" by (intro block_pages_mono) simp
    finally show ?thesis using half(2) [of j] that by auto
  qed
  have left: "block_pages H T \<inter> block_pages (buddy_page H j) j = {}" if "T \<le> j" "j < k" for j
    using block_pages_mono [OF that(1), of H] half(2) [OF that] by auto
  show "apart N"
    unfolding apart_def
  proof (intro ballI impI)
    fix b c assume b: "b \<in> N" and c: "c \<in> N" and ne: "b \<noteq> c"
    from b consider (bl) "b = (False, H, T)" | (br) i where "b = (True, buddy_page H i, i)" "T \<le> i" "i < k"
      unfolding N_def by blast
    then show "region b \<inter> region c = {}"
    proof cases
      case bl
      with c ne obtain j where "c = (True, buddy_page H j, j)" "T \<le> j" "j < k"
        unfolding N_def by blast
      with bl left show ?thesis by simp
    next
      case br
      from c consider (cl) "c = (False, H, T)" | (cr) j where "c = (True, buddy_page H j, j)" "T \<le> j" "j < k"
        unfolding N_def by blast
      then show ?thesis
      proof cases
        case cl
        with br left [of i] show ?thesis by auto
      next
        case cr
        with br ne have "i \<noteq> j" by auto
        then consider "i < j" | "j < i" by arith
        then show ?thesis
        proof cases
          case 1
          with br cr two [of i j] show ?thesis by simp
        next
          case 2
          with br cr two [of j i] show ?thesis by auto
        qed
      qed
    qed
  qed
  show "\<forall>n\<in>N. region n \<subseteq> block_pages H k"
  proof
    fix n assume "n \<in> N"
    then consider "n = (False, H, T)" | j where "n = (True, buddy_page H j, j)" "T \<le> j" "j < k"
      unfolding N_def by blast
    then show "region n \<subseteq> block_pages H k"
    proof cases
      case 1
      with assms(3) show ?thesis by (simp add: block_pages_mono)
    next
      case 2
      then have "region n \<subseteq> block_pages H (j + 1)" using half(1) by simp
      also from 2 have "\<dots> \<subseteq> block_pages H k" by (intro block_pages_mono) simp
      finally show ?thesis .
    qed
  qed
qed

lemma unique_membership_buddy_alloc:
  assumes "allocator_inv s" "unique_membership s A" "buddy_alloc s sz = Inr (s', r)"
  shows "unique_membership s' (outstanding A (Alloc sz) (Ptr r))"
  using assms(3)
proof (cases rule: buddy_alloc_cases)
  case null
  with assms(2) show ?thesis by simp
next
  case (block T k H rest)
  from assms(1) have ok: "pages_ok s" and lists: "lists_ok s"
    by (simp_all add: allocator_inv_def)
  from assms(2) have dist: "\<And>j. MIN_ORDER \<le> j \<Longrightarrow> j \<le> MAX_ORDER \<Longrightarrow> distinct (free_area s j)"
    and addrs: "\<And>a. a \<in> A \<Longrightarrow> a = PAGE_TO_ADDR (g_memory s) (int (unat (ADDR_TO_PAGE (g_memory s) a)))"
    and ap: "apart (extant s A)"
    by (simp_all add: unique_membership_def)
  have Tk: "MIN_ORDER \<le> k" using block(2,3) by simp
  have Hin: "H \<in> set (free_area s k)" using block(5) by simp
  with lists Tk block(4) have H: "H < n_pages" "aligned H k"
    by (auto dest: lists_okD)
  let ?s0 = "list_del_init H k s"
  have ok0: "pages_ok ?s0" using ok by simp
  from splitMemory_effect [OF ok0 H(1) block(2,3,4)]
  obtain s1 where s1: "splitMemory ?s0 H k T = Inr s1" "g_memory s1 = g_memory ?s0" "pages_ok s1"
    "\<forall>j. free_area s1 j = (if T \<le> j \<and> j < k then buddy_page H j # free_area ?s0 j else free_area ?s0 j)"
    "\<forall>q. (\<forall>j. T \<le> j \<and> j < k \<longrightarrow> q \<noteq> buddy_page H j) \<longrightarrow> g_pages s1 ! q = g_pages ?s0 ! q"
    by blast
  have Tn: "T \<noteq> - 1" using block(2) by (simp add: MIN_ORDER_def)
  from buddy_alloc_effect [OF ok H(1) block(1) Tn block(3,4,5,6)] assms(3) s1(1)
  have s': "s' = set_order H T s1" and r: "r = Some (address (g_pages s ! H))"
    by auto
  have len: "length (g_pages s1) = n_pages" using s1(3) by (rule pages_ok_length)
  have g: "g_memory s' = g_memory s" using s1(2) by (simp add: s')
  have a: "address (g_pages s ! H) = PAGE_TO_ADDR (g_memory s) (int H)"
    using ok H(1) by (rule pages_ok_nth)
  have pa: "unat (ADDR_TO_PAGE (g_memory s) (PAGE_TO_ADDR (g_memory s) (int H))) = H"
    using H(1) by (rule ADDR_TO_PAGE_PAGE_TO_ADDR)
  have fa: "free_area s' j =
      (if T \<le> j \<and> j < k then [buddy_page H j] else if j = k then rest else free_area s j)" for j
    using s1(4) block(5,6) by (simp add: s')
  have ordH: "order (g_pages s' ! H) = T"
    using H(1) len by (simp add: s' set_order_order)
  have keep: "g_pages s' ! q = g_pages s ! q" if "q \<notin> block_pages H k" for q
  proof -
    from that have "q \<noteq> H" using block_pages_self [of H k] by auto
    moreover have "q \<noteq> buddy_page H j" if j: "T \<le> j \<and> j < k" for j
    proof -
      from j have "j + 1 \<le> k" by simp
      with H(2) have "aligned H (j + 1)" by (rule aligned_down)
      moreover from j block(2) have "MIN_ORDER \<le> j" by simp
      ultimately have "block_pages (buddy_page H j) j \<subseteq> block_pages H (j + 1)"
        by (rule block_pages_right_half)
      also from j have "\<dots> \<subseteq> block_pages H k" by (intro block_pages_mono) simp
      finally show ?thesis using block_pages_self [of "buddy_page H j" j] \<open>q \<notin> block_pages H k\<close>
        by auto
    qed
    ultimately show ?thesis
      using s1(5) H(1) len by (simp add: s' set_order_def)
  qed
  define N where "N = {(True, buddy_page H j, j) | j. T \<le> j \<and> j < k} \<union> {(False, H, T)}"
  let ?A' = "insert (address (g_pages s ! H)) A"
  have b0: "(True, H, k) \<in> extant s A"
    using Tk block(4) Hin by (rule extant_freeI)
  have sub: "extant s' ?A' \<subseteq> (extant s A - {(True, H, k)}) \<union> N"
  proof
    fix x assume "x \<in> extant s' ?A'"
    then show "x \<in> (extant s A - {(True, H, k)}) \<union> N"
    proof (cases rule: extant_cases)
      case (free p j)
      consider "T \<le> j \<and> j < k" | "j = k" | "\<not> (T \<le> j \<and> j < k)" "j \<noteq> k" by blast
      then show ?thesis
      proof cases
        case 1
        with free fa have "p = buddy_page H j" by simp
        with free(1) 1 show ?thesis by (simp add: N_def)
      next
        case 2
        with free fa have "p \<in> set rest" by simp
        moreover from dist [OF Tk block(4)] block(5) have "H \<notin> set rest" by simp
        ultimately have "p \<noteq> H" "p \<in> set (free_area s k)" using block(5) by auto
        with free 2 show ?thesis by (simp add: extant_def)
      next
        case 3
        with free fa have "p \<in> set (free_area s j)" by simp
        with free 3 show ?thesis by (simp add: extant_def)
      qed
    next
      case (used a')
      show ?thesis
      proof (cases "a' = address (g_pages s ! H)")
        case True
        with used(2) have "x = (False, H, T)" by (simp add: g a pa ordH)
        then show ?thesis by (simp add: N_def)
      next
        case False
        with used(1) have a': "a' \<in> A" by simp
        let ?p = "unat (ADDR_TO_PAGE (g_memory s) a')"
        let ?y = "(False, ?p, order (g_pages s ! ?p))"
        from a' have y: "?y \<in> extant s A" by (rule extant_usedI)
        from ap y b0 have "region ?y \<inter> region (True, H, k) = {}" by (rule apartD) simp
        then have "?p \<notin> block_pages H k" using block_pages_self [of ?p] by auto
        then have "g_pages s' ! ?p = g_pages s ! ?p" by (rule keep)
        with used(2) have "x = ?y" by (simp add: g)
        with y show ?thesis by simp
      qed
    qed
  qed
  have pieces: "apart N" "\<forall>n\<in>N. region n \<subseteq> block_pages H k"
    unfolding N_def using H(2) block(2,3) by (rule split_pieces)+
  have "apart ((extant s A - {(True, H, k)}) \<union> N)"
    using ap _ pieces(1)
  proof (rule apart_replace)
    show "{(True, H, k)} \<subseteq> extant s A" using b0 by simp
    show "\<forall>n\<in>N. region n \<subseteq> (\<Union>m\<in>{(True, H, k)}. region m)" using pieces(2) by simp
  qed
  then have "apart (extant s' ?A')" using sub by (rule apart_subset)
  moreover have "distinct (free_area s' j)" if "MIN_ORDER \<le> j" "j \<le> MAX_ORDER" for j
    using dist [OF that] dist [OF Tk block(4)] block(5) by (simp add: fa)
  moreover have "a' = PAGE_TO_ADDR (g_memory s') (int (unat (ADDR_TO_PAGE (g_memory s') a')))"
    if "a' \<in> ?A'" for a'
  proof (cases "a' = address (g_pages s ! H)")
    case True
    then show ?thesis by (simp only: g a pa)
  next
    case False
    with that have "a' \<in> A" by simp
    then show ?thesis unfolding g by (rule addrs)
  qed
  ultimately show ?thesis
    unfolding unique_membership_def r by simp
qed

text \<open>The pages of the block that the spec's loop ends with are pages of the block it
  started with or of blocks it removed from the lists; and lists without duplicates stay
  so.\<close>

lemma coalesce_spec_pages:
  "coalesce_spec fa h i = (fa', h', k') \<Longrightarrow> aligned h i \<Longrightarrow> MIN_ORDER \<le> i \<Longrightarrow>
   \<forall>j. MIN_ORDER \<le> j \<and> j \<le> MAX_ORDER \<longrightarrow> distinct (fa j) \<Longrightarrow>
   (\<forall>j. MIN_ORDER \<le> j \<and> j \<le> MAX_ORDER \<longrightarrow> distinct (fa' j)) \<and>
   block_pages h' k' \<subseteq> block_pages h i \<union>
     (\<Union>j\<in>{MIN_ORDER..<MAX_ORDER}. \<Union>p\<in>set (fa j) - set (fa' j). block_pages p j)"
proof (induction fa h i rule: coalesce_spec.induct)
  case (1 fa h i)
  show ?case
  proof (cases "i < MAX_ORDER \<and> buddy_page h i \<in> set (fa i)")
    case False
    with "1.prems"(1) have "fa' = fa" "h' = h" "k' = i"
      by (subst (asm) coalesce_spec.simps, auto simp: Let_def split: if_splits)+
    with "1.prems"(4) show ?thesis by simp
  next
    case True
    let ?b = "buddy_page h i"
    let ?h = "if ?b < h then ?b else h"
    let ?fa = "fa(i := remove1 ?b (fa i))"
    from True "1.prems"(1)
    have rec: "coalesce_spec ?fa ?h (i + 1) = (fa', h', k')"
      by (subst (asm) coalesce_spec.simps) (simp add: Let_def)
    have al: "aligned ?h (i + 1)"
      using "1.prems"(2,3) by (rule aligned_merge)
    from "1.prems"(3) have i: "MIN_ORDER \<le> i + 1" by simp
    have d: "\<forall>j. MIN_ORDER \<le> j \<and> j \<le> MAX_ORDER \<longrightarrow> distinct (?fa j)"
      using "1.prems"(4) by (simp add: distinct_remove1)
    from True have t: "i < MAX_ORDER" "?b \<in> set (fa i)" by simp_all
    from "1.IH" [OF t(1) refl t(2) rec al i d]
    have IH: "\<forall>j. MIN_ORDER \<le> j \<and> j \<le> MAX_ORDER \<longrightarrow> distinct (fa' j)"
      "block_pages h' k' \<subseteq> block_pages ?h (i + 1) \<union>
        (\<Union>j\<in>{MIN_ORDER..<MAX_ORDER}. \<Union>p\<in>set (?fa j) - set (fa' j). block_pages p j)"
      by simp_all
    from coalesce_spec_inv [OF rec al i] have sub: "set (fa' i) \<subseteq> set (?fa i)" by blast
    from "1.prems"(3,4) t(1) have "distinct (fa i)" by simp
    then have "?b \<notin> set (?fa i)" by simp
    with sub t(2) have bin: "?b \<in> set (fa i) - set (fa' i)" by blast
    have range: "i \<in> {MIN_ORDER..<MAX_ORDER}" using "1.prems"(3) t(1) by simp
    have merge: "block_pages ?h (i + 1) \<subseteq> block_pages h i \<union> block_pages ?b i"
      using "1.prems"(2,3) by (rule block_pages_merge)
    have less: "set (?fa j) - set (fa' j) \<subseteq> set (fa j) - set (fa' j)" for j
      using set_remove1_subset [of ?b "fa i"] by auto
    have "block_pages h' k' \<subseteq> block_pages h i \<union>
        (\<Union>j\<in>{MIN_ORDER..<MAX_ORDER}. \<Union>p\<in>set (fa j) - set (fa' j). block_pages p j)"
    proof
      fix y assume "y \<in> block_pages h' k'"
      with IH(2) consider "y \<in> block_pages ?h (i + 1)"
        | j p where "j \<in> {MIN_ORDER..<MAX_ORDER}" "p \<in> set (?fa j) - set (fa' j)" "y \<in> block_pages p j"
        by blast
      then show "y \<in> block_pages h i \<union>
        (\<Union>j\<in>{MIN_ORDER..<MAX_ORDER}. \<Union>p\<in>set (fa j) - set (fa' j). block_pages p j)"
      proof cases
        case 1
        with merge have "y \<in> block_pages h i \<or> y \<in> block_pages ?b i" by blast
        with bin range show ?thesis by blast
      next
        case 2
        with less [of j] show ?thesis by blast
      qed
    qed
    with IH(1) show ?thesis by simp
  qed
qed

lemma unique_membership_buddy_free:
  assumes "allocator_inv s" "unique_membership s A" "a \<in> A" "buddy_free s a = Inr s'"
  shows "unique_membership s' (A - {a})"
proof -
  from assms(1) have ok: "pages_ok s" and orders: "orders_ok s"
    by (simp_all add: allocator_inv_def)
  from assms(2) have dist: "\<forall>j. MIN_ORDER \<le> j \<and> j \<le> MAX_ORDER \<longrightarrow> distinct (free_area s j)"
    and addrs: "\<And>a. a \<in> A \<Longrightarrow> a = PAGE_TO_ADDR (g_memory s) (int (unat (ADDR_TO_PAGE (g_memory s) a)))"
    and ap: "apart (extant s A)"
    by (simp_all add: unique_membership_def)
  from assms(4) ok obtain H k0 fa h k where
    f: "unat (ADDR_TO_PAGE (g_memory s) a) = H" "H < n_pages"
    "order (g_pages s ! H) = k0" "MIN_ORDER \<le> k0" "k0 \<le> MAX_ORDER"
    "coalesce_spec (free_area s) H k0 = (fa, h, k)"
    "s' = list_add h k (set_order h k (s\<lparr>free_area := fa\<rparr>))"
    by (rule buddy_free_cases)
  from orders f(2,3,4,5) have al0: "aligned H k0" by (auto simp: orders_ok_def)
  from coalesce_spec_bounds [OF f(6,2,4,5)]
  have b: "h < n_pages" "k0 \<le> k" "k \<le> MAX_ORDER" by simp_all
  have k: "MIN_ORDER \<le> k" using f(4) b(2) by simp
  from coalesce_spec_inv [OF f(6) al0 f(4)]
  have sub: "\<And>j. set (fa j) \<subseteq> set (free_area s j)" by simp
  from coalesce_spec_pages [OF f(6) al0 f(4) dist]
  have dist': "\<And>j. MIN_ORDER \<le> j \<Longrightarrow> j \<le> MAX_ORDER \<Longrightarrow> distinct (fa j)"
    and pages: "block_pages h k \<subseteq> block_pages H k0 \<union>
      (\<Union>j\<in>{MIN_ORDER..<MAX_ORDER}. \<Union>p\<in>set (free_area s j) - set (fa j). block_pages p j)"
    by simp_all
  have g: "g_memory s' = g_memory s" by (simp add: f(7))
  have fa': "free_area s' j = (if j = k then h # fa k else fa j)" for j
    by (simp add: f(7))
  have gp: "g_pages s' ! q = g_pages s ! q" if "q \<noteq> h" for q
    using that by (simp add: f(7) set_order_def)
  define M where "M = {(False, H, k0)} \<union>
    {(True, p, j) | p j. MIN_ORDER \<le> j \<and> j < MAX_ORDER \<and> p \<in> set (free_area s j) - set (fa j)}"
  have a0: "(False, H, k0) \<in> extant s A"
    using extant_usedI [OF assms(3), of s] by (simp only: f(1,3))
  have M: "M \<subseteq> extant s A"
    using a0 by (auto simp: M_def intro: extant_freeI)
  have cover: "block_pages h k \<subseteq> (\<Union>m\<in>M. region m)"
  proof
    fix y assume "y \<in> block_pages h k"
    with pages consider "y \<in> block_pages H k0"
      | j p where "j \<in> {MIN_ORDER..<MAX_ORDER}" "p \<in> set (free_area s j) - set (fa j)" "y \<in> block_pages p j"
      by blast
    then show "y \<in> (\<Union>m\<in>M. region m)"
    proof cases
      case 1
      then have "y \<in> region (False, H, k0)" by simp
      moreover have "(False, H, k0) \<in> M" by (simp add: M_def)
      ultimately show ?thesis by blast
    next
      case 2
      then have "y \<in> region (True, p, j)" "(True, p, j) \<in> M" by (simp_all add: M_def)
      then show ?thesis by blast
    qed
  qed
  have stays: "q \<notin> block_pages h k" if x: "x \<in> extant s A - M" and q: "q \<in> region x" for x q
  proof
    assume "q \<in> block_pages h k"
    with cover obtain m where m: "m \<in> M" "q \<in> region m" by blast
    from m(1) M x have "m \<in> extant s A" "x \<in> extant s A" "x \<noteq> m" by blast+
    with ap have "region x \<inter> region m = {}" by (intro apartD)
    with q m(2) show False by blast
  qed
  have sub': "extant s' (A - {a}) \<subseteq> (extant s A - M) \<union> {(True, h, k)}"
  proof
    fix x assume "x \<in> extant s' (A - {a})"
    then show "x \<in> (extant s A - M) \<union> {(True, h, k)}"
    proof (cases rule: extant_cases)
      case (free p j)
      show ?thesis
      proof (cases "j = k \<and> p = h")
        case True
        with free(1) show ?thesis by simp
      next
        case False
        with free(4) fa' have "p \<in> set (fa j)" by (auto split: if_splits)
        moreover from this sub have "p \<in> set (free_area s j)" by blast
        ultimately show ?thesis using free(1,2,3) by (simp add: M_def extant_def)
      qed
    next
      case (used a')
      let ?p = "unat (ADDR_TO_PAGE (g_memory s) a')"
      let ?y = "(False, ?p, order (g_pages s ! ?p))"
      from used(1) have a': "a' \<in> A" "a' \<noteq> a" by simp_all
      have "?p \<noteq> H"
      proof
        assume "?p = H"
        with addrs [OF a'(1)] addrs [OF assms(3)] f(1) have "a' = a" by simp
        with a'(2) show False by simp
      qed
      then have "?y \<notin> M" by (simp add: M_def)
      with a'(1) have y: "?y \<in> extant s A - M" by (simp add: extant_usedI)
      then have "?p \<notin> block_pages h k"
        by (rule stays) (simp add: block_pages_self)
      then have "?p \<noteq> h" using block_pages_self [of h k] by auto
      then have "g_pages s' ! ?p = g_pages s ! ?p" by (rule gp)
      with used(2) have "x = ?y" by (simp add: g)
      with y show ?thesis by simp
    qed
  qed
  have "apart ((extant s A - M) \<union> {(True, h, k)})"
    using ap M
  proof (rule apart_replace)
    show "apart {(True, h, k)}" by (simp add: apart_def)
    show "\<forall>n\<in>{(True, h, k)}. region n \<subseteq> (\<Union>m\<in>M. region m)" using cover by simp
  qed
  then have "apart (extant s' (A - {a}))" using sub' by (rule apart_subset)
  moreover have "distinct (free_area s' j)" if j: "MIN_ORDER \<le> j" "j \<le> MAX_ORDER" for j
  proof (cases "j = k")
    case False
    with dist' [OF j] show ?thesis by (simp add: fa')
  next
    case True
    have "h \<notin> set (fa k)"
    proof
      assume h: "h \<in> set (fa k)"
      with sub have "h \<in> set (free_area s k)" by blast
      with h k b(3) have "(True, h, k) \<in> extant s A - M" by (simp add: M_def extant_def)
      then have "h \<notin> block_pages h k" by (rule stays) (simp add: block_pages_self)
      then show False by (simp add: block_pages_self)
    qed
    with dist' [OF k b(3)] True show ?thesis by (simp add: fa')
  qed
  moreover have "a' = PAGE_TO_ADDR (g_memory s') (int (unat (ADDR_TO_PAGE (g_memory s') a')))"
    if "a' \<in> A - {a}" for a'
  proof -
    from that have "a' \<in> A" by simp
    then show ?thesis unfolding g by (rule addrs)
  qed
  ultimately show ?thesis
    unfolding unique_membership_def by simp
qed

lemma reachable_unique_membership: "reachable s A \<Longrightarrow> unique_membership s A"
proof (induction rule: reachable.induct)
  case (reach_init s0)
  show ?case by (rule unique_membership_buddy_init)
next
  case (reach_alloc s A sz s' r)
  from reach_alloc.hyps(1) have "allocator_inv s" by (rule reachable_allocator_inv)
  then show ?case using reach_alloc.IH reach_alloc.hyps(2) by (rule unique_membership_buddy_alloc)
next
  case (reach_free s A a s')
  from reach_free.hyps(1) have "allocator_inv s" by (rule reachable_allocator_inv)
  then show ?case using reach_free.IH reach_free.hyps(2,3) by (rule unique_membership_buddy_free)
qed

text \<open>So the lists of a reachable state are what the linked lists of the source are: no
  descriptor is linked twice on a list or on two lists, and the page of an outstanding
  allocation is on no list.\<close>

lemma reachable_lists_proper:
  assumes "reachable s A" "MIN_ORDER \<le> j" "j \<le> MAX_ORDER" "MIN_ORDER \<le> k" "k \<le> MAX_ORDER"
  shows "distinct (free_area s k)"
    and "p \<in> set (free_area s j) \<Longrightarrow> p \<in> set (free_area s k) \<Longrightarrow> j = k"
    and "a \<in> A \<Longrightarrow> unat (ADDR_TO_PAGE (g_memory s) a) \<notin> set (free_area s k)"
proof -
  from assms(1) have u: "unique_membership s A" by (rule reachable_unique_membership)
  then have ap: "apart (extant s A)" by (simp add: unique_membership_def)
  from u assms(4,5) show "distinct (free_area s k)" by (simp add: unique_membership_def)
  show "j = k" if "p \<in> set (free_area s j)" "p \<in> set (free_area s k)"
  proof (rule ccontr)
    assume "j \<noteq> k"
    moreover from that assms have "(True, p, j) \<in> extant s A" "(True, p, k) \<in> extant s A"
      by (simp_all add: extant_freeI)
    ultimately have "region (True, p, j) \<inter> region (True, p, k) = {}"
      using ap by (intro apartD) simp_all
    then show False using block_pages_self [of p j] block_pages_self [of p k] by auto
  qed
  show "unat (ADDR_TO_PAGE (g_memory s) a) \<notin> set (free_area s k)" if "a \<in> A"
  proof
    let ?p = "unat (ADDR_TO_PAGE (g_memory s) a)"
    assume "?p \<in> set (free_area s k)"
    with assms(4,5) have "(True, ?p, k) \<in> extant s A" by (simp add: extant_freeI)
    moreover from that have "(False, ?p, order (g_pages s ! ?p)) \<in> extant s A"
      by (rule extant_usedI)
    ultimately have "region (True, ?p, k) \<inter> region (False, ?p, order (g_pages s ! ?p)) = {}"
      using ap by (intro apartD) simp_all
    then show False
      using block_pages_self [of ?p k] block_pages_self [of ?p "order (g_pages s ! ?p)"] by auto
  qed
qed

section \<open>Eager coalescing\<close>

lemma aligned_blocks_meet:
  assumes "aligned q k" "aligned b k" "y \<in> block_pages q k" "y \<in> block_pages b k"
  shows "q = b"
proof -
  let ?m = "(2::nat) ^ nat (k - MIN_ORDER)"
  from assms(1) obtain c where c: "q = ?m * c" unfolding aligned_def ..
  from assms(2) obtain d where d: "b = ?m * d" unfolding aligned_def ..
  from assms(3) have "?m * c \<le> y" "y < ?m * c + ?m" by (simp_all add: block_pages_def c)
  then have "y div ?m = c"
    by (intro div_nat_eqI) (simp_all add: algebra_simps)
  moreover from assms(4) have "?m * d \<le> y" "y < ?m * d + ?m" by (simp_all add: block_pages_def d)
  then have "y div ?m = d"
    by (intro div_nat_eqI) (simp_all add: algebra_simps)
  ultimately show ?thesis by (simp add: c d)
qed

text \<open>
  Claim C5. In every state that calls satisfying their preconditions reach from
  \<open>buddy_init\<close>, a block on \<open>free_area[k]\<close> with \<open>k < MAX_ORDER\<close> has no buddy on
  \<open>free_area[k]\<close>: the descriptor that \<open>buddy_free\<close> would look for, at the buddy address
  of the block, is not on that list; and a block of the state that holds a page of the
  buddy is an allocated block or a free block of another order.
\<close>

theorem eager_coalescing:
  assumes "reachable s A" "MIN_ORDER \<le> k" "k < MAX_ORDER" "p \<in> set (free_area s k)"
  shows "buddy_page p k \<notin> set (free_area s k) \<and>
     unat (ADDR_TO_PAGE (g_memory s) (BUDDY_ADDR (g_memory s) (address (g_pages s ! p)) k))
       = buddy_page p k \<and>
     (\<forall>x\<in>extant s A. region x \<inter> block_pages (buddy_page p k) k \<noteq> {} \<longrightarrow>
        \<not> fst x \<or> snd (snd x) \<noteq> k)"
proof -
  from assms(1) have inv: "allocator_inv s" by (rule reachable_allocator_inv)
  then have "eager (free_area s)" and lists: "lists_ok s" by (simp_all add: allocator_inv_def)
  then have no: "buddy_page p k \<notin> set (free_area s k)"
    using assms(2,3,4) by (intro eagerD)
  from lists assms(2,3,4) have p: "p < n_pages" "aligned p k"
    by (auto dest: lists_okD)
  with inv assms(2,3)
  have adr: "unat (ADDR_TO_PAGE (g_memory s) (BUDDY_ADDR (g_memory s) (address (g_pages s ! p)) k))
       = buddy_page p k"
    by (simp add: allocator_inv_def pages_ok_nth ADDR_TO_PAGE_BUDDY_ADDR)
  have other: "\<not> fst x \<or> snd (snd x) \<noteq> k"
    if x: "x \<in> extant s A" and meet: "region x \<inter> block_pages (buddy_page p k) k \<noteq> {}" for x
    using x
  proof (cases rule: extant_cases)
    case (used a)
    then show ?thesis by simp
  next
    case (free q j)
    show ?thesis
    proof (rule ccontr)
      assume "\<not> (\<not> fst x \<or> snd (snd x) \<noteq> k)"
      with free have j: "j = k" by simp
      from meet free j obtain y where y: "y \<in> block_pages q k" "y \<in> block_pages (buddy_page p k) k"
        by auto
      from lists free(2,3,4) j have "aligned q k" by (auto dest: lists_okD)
      moreover from p(2) have "aligned (buddy_page p k) k" by (rule aligned_buddy_page)
      ultimately have "q = buddy_page p k" using y by (rule aligned_blocks_meet)
      with free(4) j no show False by simp
    qed
  qed
  from no adr other show ?thesis by blast
qed

theorem eager_coalescing_witness:
  "\<exists>s'. reachable s' {65536} \<and> buddy_page 0 13 \<in> set (free_area s' 13) \<and>
     buddy_page (buddy_page 0 13) 13 \<notin> set (free_area s' 13)"
proof -
  from alloc_5000_after_init obtain s' where
    s': "buddy_alloc (buddy_init (zeroed 65536)) 5000 = Inr (s', Some 65536)"
    "free_area s' 13 = [buddy_page 0 13]"
    by blast
  have "reachable s' (outstanding {} (Alloc 5000) (Ptr (Some 65536)))"
    using reach_init s'(1) by (rule reach_alloc)
  then have r: "reachable s' {65536}" by simp
  have k: "MIN_ORDER \<le> 13" "13 < MAX_ORDER" by (simp_all add: MIN_ORDER_def MAX_ORDER_def)
  have p: "buddy_page 0 13 \<in> set (free_area s' 13)" using s'(2) by simp
  from eager_coalescing [OF r k p] r p show ?thesis by blast
qed

end
